theory Spec2Isabelle
  imports Complex_Main
begin

section \<open>Values and errors\<close>

text \<open>
  The program is a NumPy/SciPy script (Python 2). Its arrays hold IEEE double precision
  numbers. A sample is modelled as a real number when it is finite; the three special
  values that the arithmetic can produce are kept apart. Rounding, overflow and the sign
  of zero are not modelled: finite arithmetic is exact.

  An exception raised by the interpreter or by the array library is a value of type
  \<open>error\<close>; a function that can raise returns \<open>error + 'a\<close>.
\<close>

datatype error = ValueError | IndexError

datatype fval = Num real | PInf | NInf | NaN

definition bindr :: "error + 'a \<Rightarrow> ('a \<Rightarrow> error + 'b) \<Rightarrow> error + 'b" where
  "bindr m f = (case m of Inl e \<Rightarrow> Inl e | Inr v \<Rightarrow> f v)"

text \<open>\<open>np.fabs\<close> on one sample.\<close>

fun fabs :: "fval \<Rightarrow> fval" where
  "fabs (Num r) = Num \<bar>r\<bar>"
| "fabs PInf = PInf"
| "fabs NInf = PInf"
| "fabs NaN = NaN"

text \<open>\<open>np.maximum\<close> on two samples: a NaN operand gives NaN.\<close>

fun fmaximum :: "fval \<Rightarrow> fval \<Rightarrow> fval" where
  "fmaximum NaN _ = NaN"
| "fmaximum _ NaN = NaN"
| "fmaximum PInf _ = PInf"
| "fmaximum _ PInf = PInf"
| "fmaximum NInf v = v"
| "fmaximum v NInf = v"
| "fmaximum (Num a) (Num b) = Num (max a b)"

text \<open>
  \<open>ndarray.max()\<close>: the reduction of the array by \<open>np.maximum\<close>; an empty array has no
  maximum and the call raises ValueError.
\<close>

fun amax :: "fval list \<Rightarrow> error + fval" where
  "amax [] = Inl ValueError"
| "amax (v # vs) = Inr (fold (\<lambda>x m. fmaximum m x) vs v)"

text \<open>
  Division of two samples as the array library does it: no exception is raised (the
  program also silences all warnings), \<open>0/0\<close> and \<open>inf/inf\<close> are NaN and a non-zero
  sample over zero is an infinity. The only divisor the program uses is a maximum of
  absolute values, so a zero divisor is \<open>+0.0\<close>.
\<close>

fun fdiv :: "fval \<Rightarrow> fval \<Rightarrow> fval" where
  "fdiv NaN _ = NaN"
| "fdiv _ NaN = NaN"
| "fdiv (Num a) (Num b) =
     (if b \<noteq> 0 then Num (a / b)
      else if a = 0 then NaN
      else if 0 < a then PInf else NInf)"
| "fdiv (Num a) PInf = Num 0"
| "fdiv (Num a) NInf = Num 0"
| "fdiv PInf (Num b) = (if 0 \<le> b then PInf else NInf)"
| "fdiv NInf (Num b) = (if 0 \<le> b then NInf else PInf)"
| "fdiv PInf PInf = NaN"
| "fdiv PInf NInf = NaN"
| "fdiv NInf PInf = NaN"
| "fdiv NInf NInf = NaN"

section \<open>Signal Normalizer\<close>

text \<open>
  \<^verbatim>\<open>def norm(y): return y/np.fabs(y, dtype = np.float64).max()\<close>
\<close>

definition norm_sig :: "fval list \<Rightarrow> error + fval list" where
  "norm_sig y = bindr (amax (map fabs y)) (\<lambda>m. Inr (map (\<lambda>v. fdiv v m) y))"

section \<open>Arrays\<close>

text \<open>
  One-dimensional arrays are lists. \<open>np.ones(k)\<close> and \<open>np.zeros(k)\<close> raise ValueError
  for a negative dimension. The product of two one-dimensional arrays is taken sample
  by sample when the lengths agree; an array of length one is broadcast against the
  other; any other pair of shapes raises ValueError.
\<close>

definition np_ones :: "int \<Rightarrow> error + real list" where
  "np_ones k = (if k < 0 then Inl ValueError else Inr (replicate (nat k) 1))"

definition np_zeros :: "int \<Rightarrow> error + real list" where
  "np_zeros k = (if k < 0 then Inl ValueError else Inr (replicate (nat k) 0))"

definition np_mul :: "real list \<Rightarrow> real list \<Rightarrow> error + real list" where
  "np_mul u v =
     (if length u = length v then Inr (map2 (*) u v)
      else if length u = 1 then Inr (map (\<lambda>b. hd u * b) v)
      else if length v = 1 then Inr (map (\<lambda>a. a * hd v) u)
      else Inl ValueError)"

text \<open>
  \<open>y += z\<close> on a one-dimensional array \<open>y\<close>: \<open>z\<close> must have the shape of \<open>y\<close> or
  length one.
\<close>

definition np_iadd :: "real list \<Rightarrow> real list \<Rightarrow> error + real list" where
  "np_iadd y z =
     (if length z = length y then Inr (map2 (+) y z)
      else if length z = 1 then Inr (map (\<lambda>a. a + hd z) y)
      else Inl ValueError)"

text \<open>\<open>x1 + x2\<close> for two signals of the same length.\<close>

definition vadd :: "real list \<Rightarrow> real list \<Rightarrow> real list" where
  "vadd u v = map2 (+) u v"

text \<open>
  A two-dimensional array: its shape and its entries. \<open>M[:,k]\<close> is column \<open>k\<close>, and
  raises IndexError when there is no such column.
\<close>

record matrix =
  shape0 :: nat
  shape1 :: nat
  entry :: "nat \<Rightarrow> nat \<Rightarrow> real"

definition column :: "matrix \<Rightarrow> nat \<Rightarrow> error + real list" where
  "column M k =
     (if k < shape1 M then Inr (map (\<lambda>i. entry M i k) [0..<shape0 M]) else Inl IndexError)"

section \<open>Discrete Fourier transform\<close>

text \<open>
  \<open>fft\<close> and \<open>ifft\<close> of the array library, by their defining sums over exact complex
  numbers; both raise ValueError on an empty array.
\<close>

definition dft :: "complex list \<Rightarrow> complex list" where
  "dft xs = (let n = length xs in
     map (\<lambda>k. \<Sum>j<n. xs ! j * cis (- (2 * pi * real j * real k / real n))) [0..<n])"

definition idft :: "complex list \<Rightarrow> complex list" where
  "idft xs = (let n = length xs in
     map (\<lambda>k. (\<Sum>j<n. xs ! j * cis (2 * pi * real j * real k / real n)) / of_nat n) [0..<n])"

definition fft :: "complex list \<Rightarrow> error + complex list" where
  "fft xs = (if xs = [] then Inl ValueError else Inr (dft xs))"

definition ifft :: "complex list \<Rightarrow> error + complex list" where
  "ifft xs = (if xs = [] then Inl ValueError else Inr (idft xs))"

section \<open>Cepstral Minimum-Phase Extractor\<close>

text \<open>
  \<^verbatim>\<open>
  def rceps(x):
      y = sp.real(sp.ifft(sp.log(sp.absolute(sp.fft(x)))))
      n = len(x)
      w = np.hstack((1., 2.*np.ones(n/2-1), np.ones(1-n%2), np.zeros(n/2-1)))
      ym = sp.real(sp.ifft(sp.exp(sp.fft(w*y))))
      return (y, ym)
  \<close>
  \<open>n/2\<close> is Python 2 integer division. The window is a function of \<open>n\<close> alone;
  the first line of the body is the real cepstrum.

  Samples are exact reals here. Where a bin of the transform is zero the library's
  logarithm is minus infinity and nothing is raised; such a sample has no counterpart
  in this model. What is stated below about the window, the shapes and the exceptions
  does not depend on the values of the samples.
\<close>

definition rceps_window :: "int \<Rightarrow> error + real list" where
  "rceps_window n =
     bindr (np_ones (n div 2 - 1)) (\<lambda>twos.
     bindr (np_ones (1 - n mod 2)) (\<lambda>centre.
     bindr (np_zeros (n div 2 - 1)) (\<lambda>zeros.
     Inr ([1] @ map (\<lambda>v. 2 * v) twos @ centre @ zeros))))"

definition cepstrum :: "real list \<Rightarrow> error + real list" where
  "cepstrum x =
     bindr (fft (map complex_of_real x)) (\<lambda>X.
     bindr (ifft (map (\<lambda>z. complex_of_real (ln (cmod z))) X)) (\<lambda>c.
     Inr (map Re c)))"

definition rceps :: "real list \<Rightarrow> error + (real list \<times> real list)" where
  "rceps x =
     bindr (cepstrum x) (\<lambda>y.
     let n = int (length x) in
     bindr (rceps_window n) (\<lambda>w.
     bindr (np_mul w y) (\<lambda>wy.
     bindr (fft (map complex_of_real wy)) (\<lambda>F.
     bindr (ifft (map exp F)) (\<lambda>m.
     Inr (y, map Re m))))))"

section \<open>Parallel Filter Synthesizer\<close>

text \<open>
  \<open>scipy.signal.lfilter(b, a, x)\<close> on a one-dimensional signal, with zero initial
  state: the output obeys
  \<open>a[0]*y[n] = b[0]*x[n] + b[1]*x[n-1] + ... - a[1]*y[n-1] - ...\<close>.
  The library raises ValueError when \<open>a[0]\<close> is zero; an empty \<open>a\<close>, which has no
  \<open>a[0]\<close>, is an error here as well. The run keeps the earlier inputs and outputs,
  latest first, and the sums stop where the history or the coefficients end.

  Samples are exact reals in this section: it gives the lengths, the exceptions and the
  values in exact arithmetic. The loop the library runs, with the rounding of each
  operation, follows in the next section; without rounding it returns the same signal.
\<close>

definition dot :: "real list \<Rightarrow> real list \<Rightarrow> real" where
  "dot u v = sum_list (map2 (*) u v)"

fun lfilter_run :: "real list \<Rightarrow> real list \<Rightarrow> real list \<Rightarrow> real list \<Rightarrow> real list \<Rightarrow> real list" where
  "lfilter_run b a px py [] = []"
| "lfilter_run b a px py (x # xs) =
     (let y = (dot b (x # px) - dot (tl a) py) / hd a
      in y # lfilter_run b a (x # px) (y # py) xs)"

definition lfilter :: "real list \<Rightarrow> real list \<Rightarrow> real list \<Rightarrow> error + real list" where
  "lfilter b a x =
     (if a = [] \<or> hd a = 0 then Inl ValueError else Inr (lfilter_run b a [] [] x))"

text \<open>
  \<^verbatim>\<open>
  def parfilt(Bm, Am, FIR, x):
      y = np.zeros(x.size)
      for k in range(Am.shape[1]):
          y += np.ravel(sig.lfilter(Bm[:,k], Am[:,k], x))
      y += np.ravel(sig.lfilter(np.hstack([FIR]), np.hstack([1]), x))
      return y
  \<close>
\<close>

fun parfilt_loop :: "matrix \<Rightarrow> matrix \<Rightarrow> real list \<Rightarrow> nat list \<Rightarrow> real list \<Rightarrow> error + real list" where
  "parfilt_loop Bm Am x [] y = Inr y"
| "parfilt_loop Bm Am x (k # ks) y =
     bindr (column Bm k) (\<lambda>b.
     bindr (column Am k) (\<lambda>a.
     bindr (lfilter b a x) (\<lambda>z.
     bindr (np_iadd y z) (\<lambda>y'.
     parfilt_loop Bm Am x ks y'))))"

definition parfilt :: "matrix \<Rightarrow> matrix \<Rightarrow> real list \<Rightarrow> real list \<Rightarrow> error + real list" where
  "parfilt Bm Am FIR x =
     bindr (parfilt_loop Bm Am x [0..<shape1 Am] (replicate (length x) 0)) (\<lambda>y.
     bindr (lfilter FIR [1] x) (\<lambda>z.
     np_iadd y z))"

section \<open>The synthesizer in binary64 arithmetic\<close>

text \<open>
  The arrays of the program hold binary64 numbers, and every arithmetic operation of the
  library returns the binary64 number nearest to the exact result, a tie going to the
  even significand. \<open>fl64\<close> is this rounding on finite values: 53 significant bits, a
  spacing that never falls below \<open>2^-1074\<close>; overflow to infinity is left out.
\<close>

definition rne :: "real \<Rightarrow> int" where
  "rne q = (let f = \<lfloor>q\<rfloor>; r = q - of_int f
            in if r < 1 / 2 then f else if 1 / 2 < r then f + 1
               else if even f then f else f + 1)"

definition fl64 :: "real \<Rightarrow> real" where
  "fl64 x = (if x = 0 then 0
             else let e = max (\<lfloor>log 2 \<bar>x\<bar>\<rfloor> - 52) (- 1074)
                  in of_int (rne (x / 2 powr of_int e)) * 2 powr of_int e)"

text \<open>
  The definitions that follow take the rounding as a parameter \<open>rnd\<close>, applied to the
  result of every operation. With \<open>fl64\<close> they are the synthesizer as it runs; with the
  identity they are the synthesizer in exact arithmetic.

  \<open>scipy.signal.lfilter\<close> fills \<open>b\<close> and \<open>a\<close> with zeros to their common length
  \<open>len_b\<close> and runs the transposed direct form II over a delay line \<open>Z\<close> of
  \<open>len_b - 1\<close> zeros, dividing each coefficient by \<open>a0 = a[0]\<close>. For each sample \<open>xn\<close>:
  \<^verbatim>\<open>
  if len_b > 1:
      yn = Z[0] + b[0] / a0 * xn
      for n in 0 .. len_b - 3:
          Z[n] = Z[n+1] + xn * (b[n+1] / a0) - yn * (a[n+1] / a0)
      Z[len_b-2] = xn * (b[len_b-1] / a0) - yn * (a[len_b-1] / a0)
  else:
      yn = xn * (b[0] / a0)
  \<close>
  In \<open>lfilter_loop\<close> the lists \<open>b\<close> and \<open>a\<close> hold the rounded quotients. \<open>delays\<close> takes
  them and the delay line without their first entries and returns the new delay line.
  The exceptions are those of \<open>lfilter\<close> above.
\<close>

definition zfill :: "nat \<Rightarrow> real list \<Rightarrow> real list" where
  "zfill n c = c @ replicate (n - length c) 0"

fun delays :: "(real \<Rightarrow> real) \<Rightarrow> real list \<Rightarrow> real list \<Rightarrow> real list \<Rightarrow> real \<Rightarrow> real \<Rightarrow> real list" where
  "delays rnd (b # bs) (a # as) (z # zs) x y =
     rnd (rnd (z + rnd (x * b)) - rnd (y * a)) # delays rnd bs as zs x y"
| "delays rnd (b # bs) (a # as) [] x y = [rnd (rnd (x * b) - rnd (y * a))]"
| "delays rnd bs as zs x y = []"

fun lfilter_loop :: "(real \<Rightarrow> real) \<Rightarrow> real list \<Rightarrow> real list \<Rightarrow> real list \<Rightarrow> real list \<Rightarrow> real list" where
  "lfilter_loop rnd b a Z [] = []"
| "lfilter_loop rnd b a Z (x # xs) =
     (if 1 < length b
      then (let y = rnd (hd Z + rnd (hd b * x))
            in y # lfilter_loop rnd b a (delays rnd (tl b) (tl a) (tl Z) x y) xs)
      else (let y = rnd (x * hd b)
            in y # lfilter_loop rnd b a Z xs))"

definition lfilter_r :: "(real \<Rightarrow> real) \<Rightarrow> real list \<Rightarrow> real list \<Rightarrow> real list \<Rightarrow> error + real list" where
  "lfilter_r rnd b a x =
     (if a = [] \<or> hd a = 0 then Inl ValueError
      else (let n = max (length a) (length b);
                bn = map (\<lambda>v. rnd (v / hd a)) (zfill n b);
                an = map (\<lambda>v. rnd (v / hd a)) (zfill n a)
            in Inr (lfilter_loop rnd bn an (replicate (n - 1) 0) x)))"

text \<open>\<open>y += z\<close>, \<open>x1 + x2\<close> and the body of \<open>parfilt\<close>, with rounding.\<close>

definition np_iadd_r :: "(real \<Rightarrow> real) \<Rightarrow> real list \<Rightarrow> real list \<Rightarrow> error + real list" where
  "np_iadd_r rnd y z =
     (if length z = length y then Inr (map2 (\<lambda>u v. rnd (u + v)) y z)
      else if length z = 1 then Inr (map (\<lambda>u. rnd (u + hd z)) y)
      else Inl ValueError)"

definition vadd_r :: "(real \<Rightarrow> real) \<Rightarrow> real list \<Rightarrow> real list \<Rightarrow> real list" where
  "vadd_r rnd u v = map2 (\<lambda>a b. rnd (a + b)) u v"

fun parfilt_loop_r :: "(real \<Rightarrow> real) \<Rightarrow> matrix \<Rightarrow> matrix \<Rightarrow> real list \<Rightarrow> nat list \<Rightarrow> real list \<Rightarrow> error + real list" where
  "parfilt_loop_r rnd Bm Am x [] y = Inr y"
| "parfilt_loop_r rnd Bm Am x (k # ks) y =
     bindr (column Bm k) (\<lambda>b.
     bindr (column Am k) (\<lambda>a.
     bindr (lfilter_r rnd b a x) (\<lambda>z.
     bindr (np_iadd_r rnd y z) (\<lambda>y'.
     parfilt_loop_r rnd Bm Am x ks y'))))"

definition parfilt_r :: "(real \<Rightarrow> real) \<Rightarrow> matrix \<Rightarrow> matrix \<Rightarrow> real list \<Rightarrow> real list \<Rightarrow> error + real list" where
  "parfilt_r rnd Bm Am FIR x =
     bindr (parfilt_loop_r rnd Bm Am x [0..<shape1 Am] (replicate (length x) 0)) (\<lambda>y.
     bindr (lfilter_r rnd FIR [1] x) (\<lambda>z.
     np_iadd_r rnd y z))"

text \<open>
  The delay line in terms of the earlier inputs \<open>px\<close> and outputs \<open>py\<close>, latest first:
  entry \<open>n\<close> is what the coefficients after position \<open>n\<close> contribute.
\<close>

fun delay_line :: "real list \<Rightarrow> real list \<Rightarrow> real list \<Rightarrow> real list \<Rightarrow> real list" where
  "delay_line (b # bs) (a # as) px py = (dot (b # bs) px - dot (a # as) py) # delay_line bs as px py"
| "delay_line bs as px py = []"

section \<open>Pole Grid Generator\<close>

text \<open>
  \<^verbatim>\<open>
  R = 0.5
  fplog = np.hstack((sp.logspace(sp.log10(30.), sp.log10(200.), 13.),
                     sp.logspace(sp.log10(250.), sp.log10(18000.), 12.)))
  wp = 2 * sp.pi * fplog / Fs
  p = np.power(R, wp/sp.pi) * np.exp(1j*wp)
  plog = np.hstack((p, np.conj(p)))
  \<close>
  \<open>logspace\<close> raises 10 to the points of \<open>linspace\<close>, whose last point is set to the
  stop value. \<open>Fs\<close> is the sample rate read from the measurement file, a positive
  integer; frequencies, angles and poles are exact real and complex numbers.
\<close>

definition linspace :: "real \<Rightarrow> real \<Rightarrow> nat \<Rightarrow> real list" where
  "linspace start stop num =
     (if num = 0 then []
      else if num = 1 then [start]
      else (let step = (stop - start) / real (num - 1)
            in (map (\<lambda>i. real i * step + start) [0..<num]) [num - 1 := stop]))"

definition logspace :: "real \<Rightarrow> real \<Rightarrow> nat \<Rightarrow> real list" where
  "logspace start stop num = map (\<lambda>y. 10 powr y) (linspace start stop num)"

definition R :: real where
  "R = 0.5"

definition fplog :: "real list" where
  "fplog = logspace (log 10 30) (log 10 200) 13 @ logspace (log 10 250) (log 10 18000) 12"

definition wp :: "int \<Rightarrow> real list" where
  "wp Fs = map (\<lambda>f. 2 * pi * f / real_of_int Fs) fplog"

definition p :: "int \<Rightarrow> complex list" where
  "p Fs = map (\<lambda>w. complex_of_real (R powr (w / pi)) * exp (\<i> * complex_of_real w)) (wp Fs)"

definition plog :: "int \<Rightarrow> complex list" where
  "plog Fs = p Fs @ map cnj (p Fs)"

section \<open>Frequency-domain resampling\<close>

text \<open>
  Python slicing with step one: a negative bound counts from the end and both bounds
  are clipped to the array. Assigning to a slice needs a value of the slice's length, or
  of length one, which is broadcast; anything else raises ValueError.
\<close>

definition slice_bounds :: "int \<Rightarrow> int option \<Rightarrow> nat \<Rightarrow> nat \<times> nat" where
  "slice_bounds start stop n =
     (let clip = (\<lambda>i. if i < 0 then max (i + int n) 0 else min i (int n));
          lo = clip start;
          hi = (case stop of None \<Rightarrow> int n | Some j \<Rightarrow> clip j)
      in (nat lo, nat (max lo hi)))"

definition py_getslice :: "'a list \<Rightarrow> int \<Rightarrow> int option \<Rightarrow> 'a list" where
  "py_getslice xs start stop =
     (case slice_bounds start stop (length xs) of (lo, hi) \<Rightarrow> take (hi - lo) (drop lo xs))"

definition py_setslice :: "'a list \<Rightarrow> int \<Rightarrow> int option \<Rightarrow> 'a list \<Rightarrow> error + 'a list" where
  "py_setslice ys start stop vs =
     (case slice_bounds start stop (length ys) of (lo, hi) \<Rightarrow>
        if length vs = hi - lo then Inr (take lo ys @ vs @ drop hi ys)
        else if length vs = 1 then Inr (take lo ys @ replicate (hi - lo) (hd vs) @ drop hi ys)
        else Inl ValueError)"

text \<open>
  The window \<open>get_window('hanning', Nx)\<close> is \<open>hann(Nx, sym=False)\<close>; \<open>ifftshift\<close> rotates
  an array so that its second half comes first.
\<close>

definition hann :: "nat \<Rightarrow> bool \<Rightarrow> real list" where
  "hann M symm =
     (if M < 1 then []
      else if M = 1 then [1]
      else (let ext = (\<not> symm \<and> M mod 2 = 0);
                M' = (if ext then M + 1 else M);
                w = map (\<lambda>n. 0.5 - 0.5 * cos (2 * pi * real n / real (M' - 1))) [0..<M']
            in if ext then butlast w else w))"

definition ifftshift :: "'a list \<Rightarrow> 'a list" where
  "ifftshift x = (let p2 = length x - (length x + 1) div 2 in drop p2 x @ take p2 x)"

text \<open>
  \<open>scipy.signal.resample(x, num, window=...)\<close> on a one-dimensional complex array, as
  the library releases for Python 2 implement it:
  \<^verbatim>\<open>
  X = fft(x); Nx = len(x)
  if window is not None: X = X * ifftshift(get_window(window, Nx))
  N = int(np.minimum(num, Nx))
  Y = zeros(num, 'D')
  Y[0:(N+1)//2] = X[0:(N+1)//2]
  Y[-(N-1)//2:] = X[-(N-1)//2:]
  y = ifft(Y) * (float(num) / float(Nx))
  \<close>
  The flag says whether the Hanning window is applied.
\<close>

definition resample :: "complex list \<Rightarrow> int \<Rightarrow> bool \<Rightarrow> error + complex list" where
  "resample x num windowed =
     bindr (fft x) (\<lambda>X0.
     let Nx = length x;
         X = (if windowed
              then map2 (\<lambda>a w. a * complex_of_real w) X0 (ifftshift (hann Nx False))
              else X0);
         N = min num (int Nx) in
     bindr (np_zeros num) (\<lambda>Z.
     let Y0 = map complex_of_real Z in
     bindr (py_setslice Y0 0 (Some ((N + 1) div 2)) (py_getslice X 0 (Some ((N + 1) div 2)))) (\<lambda>Y1.
     bindr (py_setslice Y1 ((- (N - 1)) div 2) None (py_getslice X ((- (N - 1)) div 2) None)) (\<lambda>Y2.
     bindr (ifft Y2) (\<lambda>y.
     Inr (map (\<lambda>v. v * complex_of_real (real_of_int num / real Nx)) y))))))"

section \<open>Target Response Builder, curve-file mode\<close>

text \<open>
  \<^verbatim>\<open>
  t = np.loadtxt(target)
  outf = sp.fft(sig.resample(sp.ifft(t[:,1]), len(minresp)))
  \<close>
  \<open>t\<close> is the table read from the target file and \<open>L\<close> the length of the
  minimum-phase response.
\<close>

definition target_curve :: "matrix \<Rightarrow> nat \<Rightarrow> error + complex list" where
  "target_curve t L =
     bindr (column t 1) (\<lambda>c.
     bindr (ifft (map complex_of_real c)) (\<lambda>h.
     bindr (resample h (int L) False) (\<lambda>r.
     fft r)))"

section \<open>Equalizer Finalizer\<close>

text \<open>
  \<^verbatim>\<open>
  equalizer = sig.resample(equalizer, ntaps, window='hanning')
  equalizer = norm(np.real(sp.ifft(equalizer)))
  \<close>
  \<open>equalizer_taps\<close> is the argument of \<open>norm\<close>.
\<close>

definition equalizer_taps :: "complex list \<Rightarrow> int \<Rightarrow> error + real list" where
  "equalizer_taps equalizer ntaps =
     bindr (resample equalizer ntaps True) (\<lambda>e.
     bindr (ifft e) (\<lambda>t.
     Inr (map Re t)))"

definition finalizer :: "complex list \<Rightarrow> int \<Rightarrow> error + fval list" where
  "finalizer equalizer ntaps =
     bindr (equalizer_taps equalizer ntaps) (\<lambda>t. norm_sig (map Num t))"

section \<open>Inputs used in the statements\<close>

text \<open>A result that is an exception.\<close>

definition raises :: "error + 'a \<Rightarrow> bool" where
  "raises r = (case r of Inl e \<Rightarrow> True | Inr v \<Rightarrow> False)"

text \<open>The two-row target table \<open>[[0, 1.0], [1, 1.0]]\<close>.\<close>

definition flat_table :: matrix where
  "flat_table = \<lparr>shape0 = 2, shape1 = 2, entry = (\<lambda>i k. [[0, 1], [1, 1]] ! i ! k)\<rparr>"

text \<open>
  The binary64 numbers written \<open>0.1\<close> and \<open>0.3\<close>, and a coefficient set of one section
  with numerator \<open>[0.1, 0, 0]\<close> and denominator \<open>[1, 0, 0]\<close>.
\<close>

definition tenth64 :: real where
  "tenth64 = 3602879701896397 / 2 ^ 55"

definition three_tenths64 :: real where
  "three_tenths64 = 5404319552844595 / 2 ^ 54"

definition one_section_B :: matrix where
  "one_section_B = \<lparr>shape0 = 3, shape1 = 1, entry = (\<lambda>i k. [tenth64, 0, 0] ! i)\<rparr>"

definition one_section_A :: matrix where
  "one_section_A = \<lparr>shape0 = 3, shape1 = 1, entry = (\<lambda>i k. [1, 0, 0] ! i)\<rparr>"

section \<open>Properties of the Signal Normalizer\<close>

lemma fold_fmaximum_Num:
  "fold (\<lambda>x m. fmaximum m x) (map Num rs) (Num a) = Num (fold max rs a)"
  by (induction rs arbitrary: a) (simp_all add: max.commute)

lemma amax_fabs_Num:
  assumes "rs \<noteq> []"
  shows "amax (map fabs (map Num rs)) = Inr (Num (Max (abs ` set rs)))"
proof -
  from assms obtain a as where rs: "rs = a # as" by (cases rs) auto
  have "amax (map fabs (map Num rs)) =
          Inr (fold (\<lambda>x m. fmaximum m x) (map Num (map abs as)) (Num \<bar>a\<bar>))"
    by (simp add: rs comp_def)
  also have "\<dots> = Inr (Num (fold max (map abs as) \<bar>a\<bar>))"
    by (simp only: fold_fmaximum_Num)
  also have "fold max (map abs as) \<bar>a\<bar> = Max (set (map abs (a # as)))"
    by (simp only: Max.set_eq_fold list.map)
  finally show ?thesis by (simp add: rs)
qed

lemma norm_sig_Num:
  assumes "rs \<noteq> []"
  shows "norm_sig (map Num rs) =
           Inr (map (\<lambda>r. fdiv (Num r) (Num (Max (abs ` set rs)))) rs)"
  using amax_fabs_Num[OF assms] by (simp add: norm_sig_def bindr_def comp_def)

lemma Max_abs_zero_iff:
  assumes "rs \<noteq> []"
  shows "Max (abs ` set rs) = 0 \<longleftrightarrow> (\<forall>r\<in>set rs. r = (0::real))"
proof
  assume m: "Max (abs ` set rs) = 0"
  show "\<forall>r\<in>set rs. r = 0"
  proof
    fix r assume "r \<in> set rs"
    then have "\<bar>r\<bar> \<le> Max (abs ` set rs)" by (intro Max_ge) auto
    with m show "r = 0" by simp
  qed
next
  assume z: "\<forall>r\<in>set rs. r = 0"
  with assms have "abs ` set rs = {0}" by (cases rs) auto
  then show "Max (abs ` set rs) = 0" by simp
qed

lemma norm_sig_zero:
  assumes "rs \<noteq> []" "\<forall>r\<in>set rs. r = 0"
  shows "norm_sig (map Num rs) = Inr (replicate (length rs) NaN)"
proof -
  have m: "Max (abs ` set rs) = 0" using assms Max_abs_zero_iff by blast
  have "map (\<lambda>r. fdiv (Num r) (Num 0)) rs = replicate (length rs) NaN"
    using assms(2) by (induction rs) auto
  then show ?thesis using norm_sig_Num[OF assms(1)] m by simp
qed

lemma norm_sig_nonzero:
  assumes "\<exists>r\<in>set rs. r \<noteq> 0"
  shows "norm_sig (map Num rs) = Inr (map (\<lambda>r. Num (r / Max (abs ` set rs))) rs)"
proof -
  from assms have ne: "rs \<noteq> []" by auto
  have "Max (abs ` set rs) \<noteq> 0" using assms Max_abs_zero_iff[OF ne] by blast
  then show ?thesis using norm_sig_Num[OF ne] by simp
qed

lemma Max_abs_scaled:
  assumes "\<exists>r\<in>set rs. r \<noteq> (0::real)"
  shows "Max (abs ` set (map (\<lambda>r. r / Max (abs ` set rs)) rs)) = 1"
proof -
  let ?m = "Max (abs ` set rs)"
  from assms have ne: "rs \<noteq> []" by auto
  have m0: "?m \<noteq> 0" using assms Max_abs_zero_iff[OF ne] by blast
  have "?m \<in> abs ` set rs" using ne by (intro Max_in) auto
  then obtain r0 where r0: "r0 \<in> set rs" "\<bar>r0\<bar> = ?m" by auto
  have mpos: "0 < ?m" using m0 r0 by (metis abs_ge_zero order_le_less)
  let ?S = "abs ` set (map (\<lambda>r. r / ?m) rs)"
  show "Max ?S = 1"
  proof (rule Max_eqI)
    show "finite ?S" by simp
    show "y \<le> 1" if "y \<in> ?S" for y
    proof -
      from that obtain r where r: "r \<in> set rs" "y = \<bar>r / ?m\<bar>" by auto
      have "\<bar>r\<bar> \<le> ?m" using r(1) by (intro Max_ge) auto
      then show ?thesis using mpos r(2) by simp
    qed
    have "\<bar>r0 / ?m\<bar> = 1" using r0(2) mpos by simp
    then show "1 \<in> ?S" using r0(1) by force
  qed
qed

lemma norm_sig_peak:
  assumes "\<exists>r\<in>set rs. r \<noteq> 0"
  shows "\<exists>y. norm_sig (map Num rs) = Inr y \<and> norm_sig y = Inr y \<and>
             amax (map fabs y) = Inr (Num 1)"
proof -
  let ?m = "Max (abs ` set rs)"
  let ?ys = "map (\<lambda>r. r / ?m) rs"
  from assms have ne: "rs \<noteq> []" by auto
  have y: "norm_sig (map Num rs) = Inr (map Num ?ys)"
    using norm_sig_nonzero[OF assms] by (simp add: comp_def)
  have ne': "?ys \<noteq> []" using ne by simp
  have m1: "Max (abs ` set ?ys) = 1" by (rule Max_abs_scaled[OF assms])
  have pk: "amax (map fabs (map Num ?ys)) = Inr (Num 1)"
    using amax_fabs_Num[OF ne'] m1 by simp
  have "norm_sig (map Num ?ys) = Inr (map (\<lambda>r. fdiv (Num r) (Num 1)) ?ys)"
    using norm_sig_Num[OF ne'] m1 by simp
  then have "norm_sig (map Num ?ys) = Inr (map Num ?ys)" by (simp add: comp_def)
  with y pk show ?thesis by blast
qed

lemma norm_sig_length:
  assumes "norm_sig v = Inr y"
  shows "length y = length v"
  using assms by (auto simp: norm_sig_def bindr_def split: sum.splits)

text \<open>
  Claim C3, as the program has it. The normalizer raises nothing on a signal of zeros:
  for a non-empty signal whose samples are all zero it returns a signal of the same
  length whose samples are all NaN (each is \<open>0/0\<close>). For a signal with at least one
  non-zero sample it divides every sample by the maximum absolute value of the signal.
\<close>

theorem norm_sig_zero_or_scaled:
  "(rs \<noteq> [] \<and> (\<forall>r\<in>set rs. r = 0) \<longrightarrow>
      norm_sig (map Num rs) = Inr (replicate (length rs) NaN)) \<and>
   ((\<exists>r\<in>set rs. r \<noteq> 0) \<longrightarrow>
      norm_sig (map Num rs) = Inr (map (\<lambda>r. Num (r / Max (abs ` set rs))) rs))"
  using norm_sig_zero[of rs] norm_sig_nonzero[of rs] by blast

theorem norm_sig_zero_or_scaled_witness:
  "norm_sig (map Num [0, 0]) = Inr [NaN, NaN] \<and>
   norm_sig (map Num [3, - 4]) = Inr [Num (3 / 4), Num (- 1)]"
proof -
  have z: "[0::real, 0] \<noteq> [] \<and> (\<forall>r\<in>set [0::real, 0]. r = 0)" by simp
  have n: "\<exists>r\<in>set [3::real, - 4]. r \<noteq> 0" by simp
  have m: "Max (abs ` set [3::real, - 4]) = 4" by simp
  from z norm_sig_zero_or_scaled[of "[0, 0]"]
  have "norm_sig (map Num [0, 0]) = Inr (replicate (length [0::real, 0]) NaN)" by blast
  moreover from n norm_sig_zero_or_scaled[of "[3, - 4]"]
  have "norm_sig (map Num [3, - 4]) =
          Inr (map (\<lambda>r. Num (r / Max (abs ` set [3::real, - 4]))) [3, - 4])" by blast
  ultimately show ?thesis unfolding m by (simp add: numeral_2_eq_2)
qed

text \<open>
  The claim as the specification words it fails on three zero samples: the result is
  not an error.
\<close>

theorem norm_sig_all_zero_counterexample:
  "norm_sig [Num 0, Num 0, Num 0] = Inr [NaN, NaN, NaN]"
  by (simp add: norm_sig_def bindr_def)

text \<open>
  Claim C6. For every signal of finite samples with at least one non-zero sample the
  normalizer returns a signal \<open>y\<close> that it maps to itself, and the maximum absolute value
  of \<open>y\<close> is one.
\<close>

theorem norm_sig_idempotent:
  assumes "\<exists>r\<in>set rs. r \<noteq> 0"
  shows "\<exists>y. norm_sig (map Num rs) = Inr y \<and> norm_sig y = Inr y \<and>
             amax (map fabs y) = Inr (Num 1)"
  using assms by (rule norm_sig_peak)

theorem norm_sig_idempotent_witness:
  "norm_sig (map Num [3, - 4]) = Inr [Num (3 / 4), Num (- 1)] \<and>
   norm_sig [Num (3 / 4), Num (- 1)] = Inr [Num (3 / 4), Num (- 1)] \<and>
   amax (map fabs [Num (3 / 4), Num (- 1)]) = Inr (Num 1)"
proof -
  have n: "\<exists>r\<in>set [3::real, - 4]. r \<noteq> 0" by simp
  from norm_sig_idempotent[OF n] obtain y where
    y: "norm_sig (map Num [3, - 4]) = Inr y" "norm_sig y = Inr y"
       "amax (map fabs y) = Inr (Num 1)" by blast
  have "norm_sig (map Num [3, - 4]) = Inr [Num (3 / 4), Num (- 1)]"
    by (simp add: norm_sig_def bindr_def)
  with y(1) have "y = [Num (3 / 4), Num (- 1)]" by simp
  with y show ?thesis by simp
qed

section \<open>Properties of the Cepstral Minimum-Phase Extractor\<close>

lemma rceps_window_even:
  assumes "1 \<le> m"
  shows "rceps_window (int (2 * m)) =
           Inr ([1] @ replicate (m - 1) 2 @ [1] @ replicate (m - 1) 0)"
  using assms
  by (simp add: rceps_window_def bindr_def np_ones_def np_zeros_def nat_diff_distrib'
      map_replicate_const)

lemma rceps_window_odd:
  assumes "1 \<le> m"
  shows "rceps_window (int (2 * m + 1)) =
           Inr ([1] @ replicate (m - 1) 2 @ replicate (m - 1) 0)"
  using assms
  by (simp add: rceps_window_def bindr_def np_ones_def np_zeros_def nat_diff_distrib'
      map_replicate_const)

lemma rceps_window_nonempty: "rceps_window n = Inr w \<Longrightarrow> w \<noteq> []"
  by (auto simp: rceps_window_def bindr_def split: sum.splits)

lemma length_dft [simp]: "length (dft xs) = length xs"
  by (simp add: dft_def Let_def)

lemma length_idft [simp]: "length (idft xs) = length xs"
  by (simp add: idft_def Let_def)

lemma np_mul_same: "length u = length v \<Longrightarrow> np_mul u v = Inr (map2 (*) u v)"
  by (simp add: np_mul_def)

lemma np_mul_one: "length y \<noteq> 1 \<Longrightarrow> np_mul [1] y = Inr y"
  by (simp add: np_mul_def map_idI)

lemma np_mul_nonempty:
  assumes "np_mul w y = Inr wy" "w \<noteq> []" "y \<noteq> []"
  shows "wy \<noteq> []"
  using assms by (auto simp: np_mul_def split: if_splits)

lemma minphase_ok:
  assumes "wy \<noteq> []"
  shows "bindr (fft (map complex_of_real wy))
           (\<lambda>F. bindr (ifft (map exp F)) (\<lambda>m. Inr (y, map Re m)))
       = Inr (y, map Re (idft (map exp (dft (map complex_of_real wy)))))"
proof -
  have 1: "fft (map complex_of_real wy) = Inr (dft (map complex_of_real wy))"
    using assms by (simp add: fft_def)
  have "length (map exp (dft (map complex_of_real wy))) = length wy" by simp
  then have "map exp (dft (map complex_of_real wy)) \<noteq> []"
    using assms by (metis length_0_conv)
  then have 2: "ifft (map exp (dft (map complex_of_real wy))) =
                  Inr (idft (map exp (dft (map complex_of_real wy))))"
    by (simp only: ifft_def if_False)
  show ?thesis by (simp only: 1 2 bindr_def sum.case)
qed

lemma cepstrum_ok:
  assumes "x \<noteq> []"
  shows "cepstrum x =
           Inr (map Re (idft (map (\<lambda>z. complex_of_real (ln (cmod z)))
                                (dft (map complex_of_real x)))))"
proof -
  let ?X = "dft (map complex_of_real x)"
  let ?L = "map (\<lambda>z. complex_of_real (ln (cmod z))) ?X"
  have 1: "fft (map complex_of_real x) = Inr ?X"
    using assms by (simp add: fft_def)
  have "length ?L = length x" by simp
  then have "?L \<noteq> []" using assms by (metis length_0_conv)
  then have 2: "ifft ?L = Inr (idft ?L)" by (simp only: ifft_def if_False)
  show ?thesis
    unfolding cepstrum_def 1 2 bindr_def sum.case ..
qed

lemma cepstrum_empty: "cepstrum [] = Inl ValueError"
  by (simp add: cepstrum_def fft_def bindr_def)

lemma cepstrum_length:
  assumes "cepstrum x = Inr y"
  shows "length y = length x"
proof (cases "x = []")
  case True
  then show ?thesis using assms by (simp add: cepstrum_empty)
next
  case False
  from cepstrum_ok[OF this] assms show ?thesis by auto
qed

lemma rceps_unfold:
  assumes "cepstrum x = Inr y"
  shows "rceps x =
     bindr (rceps_window (int (length x))) (\<lambda>w.
     bindr (np_mul w y) (\<lambda>wy.
       Inr (y, map Re (idft (map exp (dft (map complex_of_real wy)))))))"
proof (cases "rceps_window (int (length x))")
  case (Inl e)
  then show ?thesis by (simp add: rceps_def assms bindr_def)
next
  case (Inr w)
  note w = this
  have "x \<noteq> []" using assms cepstrum_empty by auto
  then have cne: "y \<noteq> []" using cepstrum_length[OF assms] by (metis length_0_conv)
  show ?thesis
  proof (cases "np_mul w y")
    case (Inl e)
    then show ?thesis by (simp add: rceps_def assms w bindr_def)
  next
    case (Inr wy)
    have "wy \<noteq> []" using np_mul_nonempty[OF Inr rceps_window_nonempty[OF w] cne] .
    from minphase_ok[OF this] show ?thesis
      by (simp add: rceps_def assms w Inr bindr_def)
  qed
qed

lemma rceps_empty: "rceps [] = Inl ValueError"
  by (simp add: rceps_def cepstrum_empty bindr_def)

lemma rceps_even:
  assumes "length x = 2 * m" "1 \<le> m" "cepstrum x = Inr y"
  shows "rceps x = Inr (y, map Re (idft (map exp (dft (map complex_of_real
            (map2 (*) ([1] @ replicate (m - 1) 2 @ [1] @ replicate (m - 1) 0) y))))))"
proof -
  have ly: "length y = 2 * m" using cepstrum_length[OF assms(3)] assms(1) by simp
  have w: "rceps_window (int (length x)) =
             Inr ([1] @ replicate (m - 1) 2 @ [1] @ replicate (m - 1) 0)"
    using rceps_window_even[OF assms(2)] assms(1) by (simp only:)
  have "length ([1::real] @ replicate (m - 1) 2 @ [1] @ replicate (m - 1) 0) = length y"
    using ly assms(2) by simp
  then have "np_mul ([1] @ replicate (m - 1) 2 @ [1] @ replicate (m - 1) 0) y
      = Inr (map2 (*) ([1] @ replicate (m - 1) 2 @ [1] @ replicate (m - 1) 0) y)"
    by (rule np_mul_same)
  then show ?thesis
    unfolding rceps_unfold[OF assms(3)] w bindr_def sum.case by (simp only: sum.case)
qed

lemma rceps_odd:
  assumes "length x = 2 * m + 1" "2 \<le> m"
  shows "rceps x = Inl ValueError"
proof -
  have "x \<noteq> []" using assms by auto
  from cepstrum_ok[OF this] obtain y where y: "cepstrum x = Inr y" by blast
  have ly: "length y = 2 * m + 1" using cepstrum_length[OF y] assms(1) by simp
  have m1: "1 \<le> m" using assms(2) by simp
  have w: "rceps_window (int (length x)) =
             Inr ([1] @ replicate (m - 1) 2 @ replicate (m - 1) 0)"
    using rceps_window_odd[OF m1] assms(1) by (simp only:)
  have "np_mul ([1] @ replicate (m - 1) 2 @ replicate (m - 1) 0) y = Inl ValueError"
    using ly assms(2) by (simp add: np_mul_def)
  then show ?thesis
    unfolding rceps_unfold[OF y] w bindr_def by simp
qed

lemma rceps_three:
  assumes "length x = 3"
  shows "\<exists>r. rceps x = Inr r"
proof -
  have "x \<noteq> []" using assms by auto
  from cepstrum_ok[OF this] obtain y where y: "cepstrum x = Inr y" by blast
  have ly: "length y = 3" using cepstrum_length[OF y] assms(1) by simp
  have w: "rceps_window (int (length x)) = Inr [1]"
    using rceps_window_odd[of 1] assms by simp
  have "np_mul [1] y = Inr y"
    using ly by (simp add: np_mul_one)
  then show ?thesis
    unfolding rceps_unfold[OF y] w bindr_def by simp
qed

text \<open>
  Claim C1, as the program has it. For every input of even length \<open>n \<ge> 2\<close> the window
  has length \<open>n\<close>, with \<open>w[0] = 1\<close>, \<open>w[i] = 2\<close> for \<open>1 \<le> i < n/2\<close>, centre tap
  \<open>w[n/2] = 1\<close> and \<open>w[i] = 0\<close> for \<open>n/2 < i < n\<close>; the extractor multiplies the real
  cepstrum by it sample by sample before the second transform.
\<close>

theorem rceps_window_even_length:
  assumes "even (length x)" "2 \<le> length x"
  shows "\<exists>w y. rceps_window (int (length x)) = Inr w \<and> length w = length x \<and>
           w ! 0 = 1 \<and>
           (\<forall>i. 1 \<le> i \<and> i < length x div 2 \<longrightarrow> w ! i = 2) \<and>
           w ! (length x div 2) = 1 \<and>
           (\<forall>i. length x div 2 < i \<and> i < length x \<longrightarrow> w ! i = 0) \<and>
           cepstrum x = Inr y \<and>
           rceps x = Inr (y, map Re (idft (map exp (dft (map complex_of_real (map2 (*) w y))))))"
proof -
  from assms obtain m where m: "length x = 2 * m" "1 \<le> m" by (auto elim: evenE)
  let ?w = "[1] @ replicate (m - 1) 2 @ [1] @ replicate (m - 1) (0::real)"
  have "x \<noteq> []" using assms(2) by auto
  from cepstrum_ok[OF this] obtain y where y: "cepstrum x = Inr y" by blast
  have w: "rceps_window (int (length x)) = Inr ?w"
    using rceps_window_even[OF m(2)] m(1) by (simp only:)
  have l: "length ?w = length x" using m by simp
  have h: "length x div 2 = m" using m(1) by simp
  have w0: "?w ! 0 = 1" by simp
  have w2: "?w ! i = 2" if "1 \<le> i" "i < m" for i
    using that by (simp add: nth_Cons' nth_append)
  have wc: "?w ! m = 1"
    using m(2) by (simp add: nth_Cons' nth_append)
  have wz: "?w ! i = 0" if "m < i" "i < length x" for i
    using that m by (auto simp: nth_Cons' nth_append)
  show ?thesis
    using w l w0 w2 wc wz y rceps_even[OF m y] unfolding h by blast
qed

theorem rceps_window_even_length_witness:
  "\<exists>w. rceps_window (int (length [1, 2, 3, 4::real])) = Inr w \<and> length w = 4 \<and>
       w ! 0 = 1 \<and> w ! 1 = 2 \<and> w ! 2 = 1 \<and> w ! 3 = 0 \<and>
       \<not> raises (rceps [1, 2, 3, 4])"
proof -
  have e: "even (length [1, 2, 3, 4::real])" "2 \<le> length [1, 2, 3, 4::real]" by simp_all
  from rceps_window_even_length[OF e] obtain w y where
    w: "rceps_window (int (length [1, 2, 3, 4::real])) = Inr w" "length w = length [1, 2, 3, 4::real]"
       "w ! 0 = 1"
       "\<forall>i. 1 \<le> i \<and> i < length [1, 2, 3, 4::real] div 2 \<longrightarrow> w ! i = 2"
       "w ! (length [1, 2, 3, 4::real] div 2) = 1"
       "\<forall>i. length [1, 2, 3, 4::real] div 2 < i \<and> i < length [1, 2, 3, 4::real] \<longrightarrow> w ! i = 0" and
    r: "rceps [1, 2, 3, 4] =
          Inr (y, map Re (idft (map exp (dft (map complex_of_real (map2 (*) w y))))))"
    by blast
  have len: "length [1, 2, 3, 4::real] = 4" by simp
  have "w ! 1 = 2" using w(4) unfolding len by simp
  moreover have "w ! 2 = 1" using w(5) unfolding len by simp
  moreover have "w ! 3 = 0" using w(6) unfolding len by simp
  moreover have "length w = 4" using w(2) unfolding len .
  moreover have "\<not> raises (rceps [1, 2, 3, 4])" by (simp add: r raises_def)
  ultimately show ?thesis using w(1,3) by blast
qed

text \<open>
  The claim as the specification words it fails at length four, where the centre tap is
  one and not zero, and at length five, where the window has three samples.
\<close>

theorem rceps_window_centre_tap_counterexample:
  "rceps_window 4 = Inr [1, 2, 1, 0] \<and> rceps_window 5 = Inr [1, 2, 0]"
  using rceps_window_even[of 2] rceps_window_odd[of 2] by simp

text \<open>
  Claim C9, as the program has it. For every input of odd length \<open>n \<ge> 5\<close> the window has
  length \<open>n - 2\<close> and the product with the cepstrum raises ValueError. At length three
  the window is the single sample \<open>[1]\<close>, which is broadcast, and the extractor returns.
  For every input of even length \<open>n \<ge> 2\<close> the window has length \<open>n\<close> and the extractor
  returns.
\<close>

theorem rceps_defined:
  "(odd (length x) \<and> 5 \<le> length x \<longrightarrow>
      (\<exists>w. rceps_window (int (length x)) = Inr w \<and> length w = length x - 2) \<and>
      rceps x = Inl ValueError) \<and>
   (length x = 3 \<longrightarrow>
      rceps_window (int (length x)) = Inr [1] \<and> (\<exists>r. rceps x = Inr r)) \<and>
   (even (length x) \<and> 2 \<le> length x \<longrightarrow>
      (\<exists>w. rceps_window (int (length x)) = Inr w \<and> length w = length x) \<and>
      (\<exists>r. rceps x = Inr r))"
proof (intro conjI impI)
  assume a: "odd (length x) \<and> 5 \<le> length x"
  then obtain m where m: "length x = 2 * m + 1" "2 \<le> m" by (auto elim!: oddE)
  have m1: "1 \<le> m" using m(2) by simp
  have "rceps_window (int (length x)) = Inr ([1] @ replicate (m - 1) 2 @ replicate (m - 1) 0)"
    using rceps_window_odd[OF m1] m(1) by (simp only:)
  moreover have "length ([1::real] @ replicate (m - 1) 2 @ replicate (m - 1) 0) = length x - 2"
    using m by simp
  ultimately show "\<exists>w. rceps_window (int (length x)) = Inr w \<and> length w = length x - 2"
    by blast
  show "rceps x = Inl ValueError" by (rule rceps_odd[OF m])
next
  assume a: "length x = 3"
  show "rceps_window (int (length x)) = Inr [1]"
    using rceps_window_odd[of 1] a by simp
  show "\<exists>r. rceps x = Inr r" by (rule rceps_three[OF a])
next
  assume a: "even (length x) \<and> 2 \<le> length x"
  then obtain m where m: "length x = 2 * m" "1 \<le> m" by (auto elim: evenE)
  have "x \<noteq> []" using a by auto
  from cepstrum_ok[OF this] obtain y where y: "cepstrum x = Inr y" by blast
  have "rceps_window (int (length x)) = Inr ([1] @ replicate (m - 1) 2 @ [1] @ replicate (m - 1) 0)"
    using rceps_window_even[OF m(2)] m(1) by (simp only:)
  moreover have "length ([1::real] @ replicate (m - 1) 2 @ [1] @ replicate (m - 1) 0) = length x"
    using m by simp
  ultimately show "\<exists>w. rceps_window (int (length x)) = Inr w \<and> length w = length x"
    by blast
  show "\<exists>r. rceps x = Inr r" using rceps_even[OF m y] by blast
qed

theorem rceps_defined_witness:
  "rceps [1, 2, 3, 4, 5] = Inl ValueError \<and> \<not> raises (rceps [1, 2, 3]) \<and>
   \<not> raises (rceps [1, 2])"
proof -
  have 5: "odd (length [1, 2, 3, 4, 5::real]) \<and> 5 \<le> length [1, 2, 3, 4, 5::real]" by simp
  have 3: "length [1, 2, 3::real] = 3" by simp
  have 2: "even (length [1, 2::real]) \<and> 2 \<le> length [1, 2::real]" by simp
  from 5 rceps_defined[of "[1, 2, 3, 4, 5]"] have "rceps [1, 2, 3, 4, 5] = Inl ValueError"
    by blast
  moreover from 3 rceps_defined[of "[1, 2, 3]"] have "\<exists>r. rceps [1, 2, 3] = Inr r"
    by blast
  moreover from 2 rceps_defined[of "[1, 2]"] have "\<exists>r. rceps [1, 2] = Inr r"
    by blast
  ultimately show ?thesis by (auto simp: raises_def)
qed

text \<open>
  The claim without these bounds fails at length three, where the extractor returns,
  and at length zero, which is even and where it raises.
\<close>

theorem rceps_defined_counterexample:
  "rceps_window 3 = Inr [1] \<and> \<not> raises (rceps [1, 2, 3]) \<and> raises (rceps [])"
proof -
  have "length [1, 2, 3::real] = 3" by simp
  from rceps_three[OF this] have "\<not> raises (rceps [1, 2, 3])" by (auto simp: raises_def)
  moreover have "rceps_window 3 = Inr [1]" using rceps_window_odd[of 1] by simp
  ultimately show ?thesis by (simp add: rceps_empty raises_def)
qed

section \<open>Properties of the Parallel Filter Synthesizer\<close>

lemma length_lfilter_run [simp]: "length (lfilter_run b a px py x) = length x"
  by (induction x arbitrary: px py) (simp_all add: Let_def)

lemma lfilter_length: "lfilter b a x = Inr z \<Longrightarrow> length z = length x"
  by (auto simp: lfilter_def split: if_splits)

lemma length_vadd [simp]: "length (vadd u v) = min (length u) (length v)"
  by (simp add: vadd_def)

lemma vadd_Cons [simp]: "vadd (a # u) (b # v) = (a + b) # vadd u v"
  by (simp add: vadd_def)

lemma vadd_Nil [simp]: "vadd [] v = []" "vadd u [] = []"
  by (simp_all add: vadd_def)

lemma dot_Nil [simp]: "dot [] v = 0" "dot u [] = 0"
  by (simp_all add: dot_def)

lemma dot_Cons [simp]: "dot (a # u) (b # v) = a * b + dot u v"
  by (simp add: dot_def)

lemma dot_vadd:
  "length u = length v \<Longrightarrow> dot c (vadd u v) = dot c u + dot c v"
proof (induction u v arbitrary: c rule: list_induct2)
  case Nil
  then show ?case by simp
next
  case (Cons a u b v)
  show ?case
  proof (cases c)
    case Nil
    then show ?thesis by simp
  next
    case (Cons c0 cs)
    then show ?thesis using Cons.IH[of cs] by (simp add: algebra_simps)
  qed
qed

lemma lfilter_run_vadd:
  assumes "length x1 = length x2" "length px1 = length px2" "length py1 = length py2"
  shows "lfilter_run b a (vadd px1 px2) (vadd py1 py2) (vadd x1 x2)
       = vadd (lfilter_run b a px1 py1 x1) (lfilter_run b a px2 py2 x2)"
  using assms
proof (induction x1 x2 arbitrary: px1 px2 py1 py2 rule: list_induct2)
  case Nil
  then show ?case by simp
next
  case (Cons u1 x1 u2 x2)
  let ?y1 = "(dot b (u1 # px1) - dot (tl a) py1) / hd a"
  let ?y2 = "(dot b (u2 # px2) - dot (tl a) py2) / hd a"
  have d1: "dot b ((u1 + u2) # vadd px1 px2) = dot b (u1 # px1) + dot b (u2 # px2)"
    using dot_vadd[of "u1 # px1" "u2 # px2" b] Cons.prems by simp
  have d2: "dot (tl a) (vadd py1 py2) = dot (tl a) py1 + dot (tl a) py2"
    using dot_vadd[of py1 py2 "tl a"] Cons.prems by simp
  have y: "(dot b ((u1 + u2) # vadd px1 px2) - dot (tl a) (vadd py1 py2)) / hd a = ?y1 + ?y2"
    unfolding d1 d2 by (simp add: add_divide_distrib diff_divide_distrib)
  have "lfilter_run b a (vadd (u1 # px1) (u2 # px2)) (vadd (?y1 # py1) (?y2 # py2)) (vadd x1 x2)
      = vadd (lfilter_run b a (u1 # px1) (?y1 # py1) x1)
             (lfilter_run b a (u2 # px2) (?y2 # py2) x2)"
    by (rule Cons.IH) (use Cons.prems in simp_all)
  then show ?case
    using y by (simp add: Let_def)
qed

lemma lfilter_vadd:
  assumes "length x1 = length x2" "lfilter b a x1 = Inr z1" "lfilter b a x2 = Inr z2"
  shows "lfilter b a (vadd x1 x2) = Inr (vadd z1 z2)"
proof -
  from assms(2) have ok: "\<not> (a = [] \<or> hd a = 0)"
    by (auto simp: lfilter_def split: if_splits)
  have z: "z1 = lfilter_run b a [] [] x1" "z2 = lfilter_run b a [] [] x2"
    using assms(2,3) ok by (auto simp: lfilter_def)
  have "lfilter_run b a (vadd [] []) (vadd [] []) (vadd x1 x2)
     = vadd (lfilter_run b a [] [] x1) (lfilter_run b a [] [] x2)"
    by (rule lfilter_run_vadd) (use assms(1) in simp_all)
  then show ?thesis using ok z by (simp add: lfilter_def)
qed

lemma np_iadd_same: "length z = length y \<Longrightarrow> np_iadd y z = Inr (vadd y z)"
  by (simp add: np_iadd_def vadd_def)

lemma vadd_interchange:
  "length a = length b \<Longrightarrow> length b = length c \<Longrightarrow> length c = length d \<Longrightarrow>
   vadd (vadd a b) (vadd c d) = vadd (vadd a c) (vadd b d)"
proof (induction a b c d rule: list_induct4)
  case Nil
  then show ?case by simp
next
  case (Cons x xs y ys z zs w ws)
  then show ?case by simp
qed

lemma parfilt_loop_step:
  assumes "length y = length x"
  shows "parfilt_loop Bm Am x (k # ks) y = Inr r \<longleftrightarrow>
     (\<exists>b a z. column Bm k = Inr b \<and> column Am k = Inr a \<and> lfilter b a x = Inr z \<and>
        parfilt_loop Bm Am x ks (vadd y z) = Inr r)"
proof -
  have "np_iadd y z = Inr (vadd y z)" if "lfilter b a x = Inr z" for b a z
    using lfilter_length[OF that] assms by (simp add: np_iadd_same)
  then show ?thesis
    by (auto simp: bindr_def split: sum.splits)
qed

lemma parfilt_loop_length:
  assumes "parfilt_loop Bm Am x ks y = Inr r" "length y = length x"
  shows "length r = length x"
  using assms
proof (induction ks arbitrary: y)
  case Nil
  then show ?case by simp
next
  case (Cons k ks)
  from Cons.prems obtain b a z where
    z: "lfilter b a x = Inr z" and r: "parfilt_loop Bm Am x ks (vadd y z) = Inr r"
    using parfilt_loop_step[OF Cons.prems(2)] by blast
  have "length (vadd y z) = length x"
    using lfilter_length[OF z] Cons.prems(2) by simp
  from Cons.IH[OF r this] show ?case .
qed

lemma parfilt_loop_vadd:
  assumes "parfilt_loop Bm Am x1 ks y1 = Inr r1" "parfilt_loop Bm Am x2 ks y2 = Inr r2"
    and "length x1 = length x2" "length y1 = length x1" "length y2 = length x2"
  shows "parfilt_loop Bm Am (vadd x1 x2) ks (vadd y1 y2) = Inr (vadd r1 r2)"
  using assms
proof (induction ks arbitrary: y1 y2)
  case Nil
  then show ?case by simp
next
  case (Cons k ks)
  from Cons.prems(1) obtain b a z1 where
    b: "column Bm k = Inr b" and a: "column Am k = Inr a" and
    z1: "lfilter b a x1 = Inr z1" and r1: "parfilt_loop Bm Am x1 ks (vadd y1 z1) = Inr r1"
    using parfilt_loop_step[OF Cons.prems(4)] by blast
  from Cons.prems(2)[unfolded parfilt_loop_step[OF Cons.prems(5)]] b a obtain z2 where
    z2: "lfilter b a x2 = Inr z2" and r2: "parfilt_loop Bm Am x2 ks (vadd y2 z2) = Inr r2"
    by auto
  have lz: "length z1 = length x1" "length z2 = length x2"
    using lfilter_length z1 z2 by auto
  have z: "lfilter b a (vadd x1 x2) = Inr (vadd z1 z2)"
    by (rule lfilter_vadd[OF Cons.prems(3) z1 z2])
  have "parfilt_loop Bm Am (vadd x1 x2) ks (vadd (vadd y1 z1) (vadd y2 z2)) = Inr (vadd r1 r2)"
    by (rule Cons.IH[OF r1 r2 Cons.prems(3)]) (use lz Cons.prems in simp_all)
  also have "vadd (vadd y1 z1) (vadd y2 z2) = vadd (vadd y1 y2) (vadd z1 z2)"
    by (rule vadd_interchange) (use lz Cons.prems in simp_all)
  finally have "parfilt_loop Bm Am (vadd x1 x2) ks (vadd (vadd y1 y2) (vadd z1 z2))
                  = Inr (vadd r1 r2)" .
  moreover have l: "length (vadd y1 y2) = length (vadd x1 x2)"
    using Cons.prems by simp
  ultimately show ?case
    using parfilt_loop_step[OF l] b a z by blast
qed

lemma replicate_vadd: "vadd (replicate n 0) (replicate n (0::real)) = replicate n 0"
  by (induction n) simp_all

lemma parfilt_iff:
  "parfilt Bm Am FIR x = Inr r \<longleftrightarrow>
    (\<exists>y z. parfilt_loop Bm Am x [0..<shape1 Am] (replicate (length x) 0) = Inr y \<and>
       lfilter FIR [1] x = Inr z \<and> r = vadd y z)"
proof -
  have "np_iadd y z = Inr (vadd y z)"
    if "parfilt_loop Bm Am x [0..<shape1 Am] (replicate (length x) 0) = Inr y"
       "lfilter FIR [1] x = Inr z" for y z
    using parfilt_loop_length[OF that(1)] lfilter_length[OF that(2)] by (simp add: np_iadd_same)
  then show ?thesis
    by (auto simp: parfilt_def bindr_def split: sum.splits)
qed

lemma parfilt_returns_length:
  assumes "parfilt Bm Am FIR x = Inr r"
  shows "length r = length x"
proof -
  from assms obtain y z where
    y: "parfilt_loop Bm Am x [0..<shape1 Am] (replicate (length x) 0) = Inr y" and
    z: "lfilter FIR [1] x = Inr z" and r: "r = vadd y z"
    unfolding parfilt_iff by blast
  have "length y = length x" using parfilt_loop_length[OF y] by simp
  moreover have "length z = length x" by (rule lfilter_length[OF z])
  ultimately show ?thesis using r by simp
qed

lemma column_hd:
  assumes "k < shape1 M" "0 < shape0 M"
  shows "\<exists>a. column M k = Inr a \<and> a \<noteq> [] \<and> hd a = entry M 0 k"
  using assms by (simp add: column_def hd_map upt_conv_Cons)

lemma parfilt_loop_total:
  assumes "\<forall>k\<in>set ks. k < shape1 Bm \<and> k < shape1 Am \<and> 0 < shape0 Am \<and> entry Am 0 k \<noteq> 0"
    and "length y = length x"
  shows "\<exists>r. parfilt_loop Bm Am x ks y = Inr r"
  using assms
proof (induction ks arbitrary: y)
  case Nil
  then show ?case by simp
next
  case (Cons k ks)
  from Cons.prems(1) have k: "k < shape1 Bm" "k < shape1 Am" "0 < shape0 Am" "entry Am 0 k \<noteq> 0"
    by auto
  have b: "column Bm k = Inr (map (\<lambda>i. entry Bm i k) [0..<shape0 Bm])"
    using k(1) by (simp add: column_def)
  from column_hd[OF k(2,3)] obtain a where
    a: "column Am k = Inr a" "a \<noteq> []" "hd a = entry Am 0 k" by blast
  have z: "lfilter (map (\<lambda>i. entry Bm i k) [0..<shape0 Bm]) a x
             = Inr (lfilter_run (map (\<lambda>i. entry Bm i k) [0..<shape0 Bm]) a [] [] x)"
    using a k(4) by (simp add: lfilter_def)
  let ?z = "lfilter_run (map (\<lambda>i. entry Bm i k) [0..<shape0 Bm]) a [] [] x"
  have "\<exists>r. parfilt_loop Bm Am x ks (vadd y ?z) = Inr r"
    by (rule Cons.IH) (use Cons.prems in simp_all)
  then show ?case
    using parfilt_loop_step[OF Cons.prems(2)] b a(1) z by blast
qed

lemma parfilt_example_1:
  "parfilt \<lparr>shape0 = 2, shape1 = 1, entry = (\<lambda>i k. [1, 0] ! i)\<rparr>
           \<lparr>shape0 = 2, shape1 = 1, entry = (\<lambda>i k. [1, - (1 / 2)] ! i)\<rparr> [1] [1, 0]
     = Inr [2, 1 / 2]"
  by (simp add: parfilt_def bindr_def column_def lfilter_def np_iadd_def upt_conv_Cons Let_def)

lemma parfilt_example_2:
  "parfilt \<lparr>shape0 = 2, shape1 = 1, entry = (\<lambda>i k. [1, 0] ! i)\<rparr>
           \<lparr>shape0 = 2, shape1 = 1, entry = (\<lambda>i k. [1, - (1 / 2)] ! i)\<rparr> [1] [0, 1]
     = Inr [0, 2]"
  by (simp add: parfilt_def bindr_def column_def lfilter_def np_iadd_def upt_conv_Cons Let_def)

lemma parfilt_vadd:
  assumes "length x1 = length x2"
    and "parfilt Bm Am FIR x1 = Inr r1" "parfilt Bm Am FIR x2 = Inr r2"
  shows "parfilt Bm Am FIR (vadd x1 x2) = Inr (vadd r1 r2)"
proof -
  from assms(2) obtain y1 z1 where
    y1: "parfilt_loop Bm Am x1 [0..<shape1 Am] (replicate (length x1) 0) = Inr y1" and
    z1: "lfilter FIR [1] x1 = Inr z1" and r1: "r1 = vadd y1 z1"
    unfolding parfilt_iff by blast
  from assms(3) obtain y2 z2 where
    y2: "parfilt_loop Bm Am x2 [0..<shape1 Am] (replicate (length x2) 0) = Inr y2" and
    z2: "lfilter FIR [1] x2 = Inr z2" and r2: "r2 = vadd y2 z2"
    unfolding parfilt_iff by blast
  have ly: "length y1 = length x1" "length y2 = length x2"
    using parfilt_loop_length y1 y2 by auto
  have lz: "length z1 = length x1" "length z2 = length x2"
    using lfilter_length z1 z2 by auto
  have "parfilt_loop Bm Am (vadd x1 x2) [0..<shape1 Am]
          (vadd (replicate (length x1) 0) (replicate (length x2) 0)) = Inr (vadd y1 y2)"
    by (rule parfilt_loop_vadd[OF y1 y2 assms(1)]) simp_all
  then have y: "parfilt_loop Bm Am (vadd x1 x2) [0..<shape1 Am]
          (replicate (length (vadd x1 x2)) 0) = Inr (vadd y1 y2)"
    using assms(1) by (simp add: replicate_vadd)
  have z: "lfilter FIR [1] (vadd x1 x2) = Inr (vadd z1 z2)"
    by (rule lfilter_vadd[OF assms(1) z1 z2])
  have "vadd (vadd y1 y2) (vadd z1 z2) = vadd (vadd y1 z1) (vadd y2 z2)"
    by (rule vadd_interchange) (use ly lz assms(1) in simp_all)
  then have "\<exists>y z. parfilt_loop Bm Am (vadd x1 x2) [0..<shape1 Am]
            (replicate (length (vadd x1 x2)) 0) = Inr y \<and>
           lfilter FIR [1] (vadd x1 x2) = Inr z \<and> vadd r1 r2 = vadd y z"
    using y z r1 r2 by (intro exI[of _ "vadd y1 y2"] exI[of _ "vadd z1 z2"]) simp
  then show ?thesis
    by (simp only: parfilt_iff)
qed

lemma parfilt_total:
  assumes "shape1 Am \<le> shape1 Bm \<and> (\<forall>k<shape1 Am. 0 < shape0 Am \<and> entry Am 0 k \<noteq> 0)"
  shows "\<exists>y. parfilt Bm Am FIR x = Inr y"
proof -
  have "\<exists>r. parfilt_loop Bm Am x [0..<shape1 Am] (replicate (length x) 0) = Inr r"
    by (rule parfilt_loop_total) (use assms in auto)
  then obtain r where r: "parfilt_loop Bm Am x [0..<shape1 Am] (replicate (length x) 0) = Inr r"
    by blast
  have z: "lfilter FIR [1] x = Inr (lfilter_run FIR [1] [] [] x)"
    by (simp add: lfilter_def)
  from r z have "parfilt Bm Am FIR x = Inr (vadd r (lfilter_run FIR [1] [] [] x))"
    unfolding parfilt_iff by blast
  then show ?thesis by blast
qed

subsection \<open>Rounding\<close>

lemma rne_of_int [simp]: "rne (of_int n) = n"
  by (simp add: rne_def)

lemma rne_near:
  assumes "of_int n - 1 / 2 < q" "q < of_int n + 1 / 2"
  shows "rne q = n"
proof (cases "of_int n \<le> q")
  case True
  then have f: "\<lfloor>q\<rfloor> = n" using assms(2) by linarith
  show ?thesis using assms(2) by (simp add: rne_def f Let_def)
next
  case False
  then have f: "\<lfloor>q\<rfloor> = n - 1" using assms(1) by linarith
  have "1 / 2 < q - of_int (n - 1)" using assms(1) by simp
  then show ?thesis by (simp add: rne_def f Let_def)
qed

lemma rne_tie:
  assumes "q = of_int n + 1 / 2"
  shows "rne q = (if even n then n else n + 1)"
proof -
  have f: "\<lfloor>q\<rfloor> = n" using assms by linarith
  show ?thesis by (simp add: rne_def f Let_def assms)
qed

lemma fl64_eval:
  assumes "2 powr of_int k \<le> \<bar>x\<bar>" "\<bar>x\<bar> < 2 powr (of_int k + 1)" "- 1022 \<le> k"
  shows "fl64 x = of_int (rne (x / 2 powr of_int (k - 52))) * 2 powr of_int (k - 52)"
proof -
  have pos: "0 < \<bar>x\<bar>" using assms(1) by (smt (verit) powr_gt_zero)
  then have x0: "x \<noteq> 0" by auto
  have "\<lfloor>log 2 \<bar>x\<bar>\<rfloor> = k"
    using assms(1,2) pos by (subst floor_log_eq_powr_iff) auto
  moreover have "max (k - 52) (- 1074) = k - 52" using assms(3) by simp
  ultimately show ?thesis using x0 by (simp only: fl64_def Let_def if_False)
qed


lemma fl64_zero [simp]: "fl64 0 = 0"
  by (simp add: fl64_def)

lemma fl64_dyadic:
  assumes "\<bar>m\<bar> < 2 ^ 53" "- 1074 \<le> e"
  shows "fl64 (of_int m * 2 powr of_int e) = of_int m * 2 powr of_int e"
proof (cases "m = 0")
  case True
  then show ?thesis by simp
next
  case False
  let ?x = "of_int m * 2 powr of_int e :: real"
  have x0: "?x \<noteq> 0" using False by simp
  define E where "E = max (\<lfloor>log 2 \<bar>?x\<bar>\<rfloor> - 52) (- 1074)"
  have ax: "\<bar>?x\<bar> = \<bar>of_int m\<bar> * 2 powr of_int e" by (simp add: abs_mult)
  have "\<bar>real_of_int m\<bar> < 2 ^ 53" using assms(1) by (metis of_int_abs of_int_less_numeral_power_cancel_iff)
  then have "\<bar>?x\<bar> < 2 ^ 53 * 2 powr of_int e" unfolding ax by simp
  also have "\<dots> = 2 powr (of_int e + 53)" by (simp add: powr_add powr_numeral[symmetric] del: powr_numeral)
  finally have "log 2 \<bar>?x\<bar> < of_int e + 53"
    using x0 by (subst log_less_iff) auto
  then have "\<lfloor>log 2 \<bar>?x\<bar>\<rfloor> < e + 53" by linarith
  then have Ee: "E \<le> e" using assms(2) by (simp add: E_def)
  then obtain d :: nat where d: "e = E + int d" by (metis zle_iff_zadd)
  have "?x / 2 powr of_int E = of_int m * 2 powr (of_int e - of_int E)"
    by (simp add: powr_diff)
  also have "\<dots> = of_int m * 2 ^ d" by (simp add: d powr_realpow)
  also have "\<dots> = of_int (m * 2 ^ d)" by simp
  finally have q: "?x / 2 powr of_int E = of_int (m * 2 ^ d)" .
  have "fl64 ?x = of_int (rne (?x / 2 powr of_int E)) * 2 powr of_int E"
    using x0 by (simp only: fl64_def Let_def E_def if_False)
  also have "\<dots> = of_int (m * 2 ^ d) * 2 powr of_int E" by (simp only: q rne_of_int)
  also have "\<dots> = ?x / 2 powr of_int E * 2 powr of_int E" by (simp only: q)
  also have "\<dots> = ?x" by simp
  finally show ?thesis .
qed

lemma fl64_at:
  assumes "2 powr of_int k \<le> \<bar>x\<bar>" "\<bar>x\<bar> < 2 powr (of_int k + 1)" "- 1022 \<le> k"
    and "of_int n - 1 / 2 < x / 2 powr of_int (k - 52)" "x / 2 powr of_int (k - 52) < of_int n + 1 / 2"
  shows "fl64 x = of_int n * 2 powr of_int (k - 52)"
  using fl64_eval[OF assms(1,2,3)] rne_near[OF assms(4,5)] by simp

lemma fl64_at_tie:
  assumes "2 powr of_int k \<le> \<bar>x\<bar>" "\<bar>x\<bar> < 2 powr (of_int k + 1)" "- 1022 \<le> k"
    and "x / 2 powr of_int (k - 52) = of_int n + 1 / 2"
  shows "fl64 x = of_int (if even n then n else n + 1) * 2 powr of_int (k - 52)"
  using fl64_eval[OF assms(1,2,3)] rne_tie[OF assms(4)] by simp

subsection \<open>The filter loop without rounding\<close>

lemma delays_delay_line:
  assumes "length bs = length as"
  shows "delays (\<lambda>v. v) bs as (tl (delay_line bs as px py)) x y = delay_line bs as (x # px) (y # py)"
  using assms
proof (induction bs as rule: list_induct2)
  case Nil
  then show ?case by simp
next
  case (Cons b bs a as)
  show ?case
  proof (cases bs)
    case Nil
    with Cons.hyps have "as = []" by simp
    with Nil show ?thesis by (simp add: dot_def)
  next
    case (Cons b' bs')
    with Cons.hyps obtain a' as' where as: "as = a' # as'" by (cases as) auto
    have t: "delay_line bs as px py = (dot bs px - dot as py) # tl (delay_line bs as px py)"
      by (simp add: Cons as)
    have "delays (\<lambda>v. v) (b # bs) (a # as) (tl (delay_line (b # bs) (a # as) px py)) x y
        = delays (\<lambda>v. v) (b # bs) (a # as) ((dot bs px - dot as py) # tl (delay_line bs as px py)) x y"
      using t by simp
    also have "\<dots> = (dot bs px - dot as py + x * b - y * a)
                       # delays (\<lambda>v. v) bs as (tl (delay_line bs as px py)) x y"
      by simp
    also have "\<dots> = (dot bs px - dot as py + x * b - y * a) # delay_line bs as (x # px) (y # py)"
      by (simp only: Cons.IH)
    also have "\<dots> = delay_line (b # bs) (a # as) (x # px) (y # py)"
      by (simp add: dot_def)
    finally show ?thesis .
  qed
qed

lemma dot_append_zeros: "dot (c @ replicate k 0) v = dot c v"
proof (induction c arbitrary: v)
  case Nil
  show ?case
  proof (induction k arbitrary: v)
    case 0
    then show ?case by (simp add: dot_def)
  next
    case (Suc k)
    then show ?case by (cases v) (simp_all add: dot_def)
  qed
next
  case (Cons a c)
  then show ?case by (cases v) (simp_all add: dot_def)
qed

lemma dot_map_divide: "dot (map (\<lambda>v. v / d) c) v = dot c v / d"
proof (induction c arbitrary: v)
  case Nil
  then show ?case by (simp add: dot_def)
next
  case (Cons a c)
  then show ?case by (cases v) (simp_all add: dot_def add_divide_distrib)
qed

lemma dot_normalised: "dot (map (\<lambda>v. v / d) (zfill n c)) v = dot c v / d"
  by (simp add: dot_map_divide zfill_def dot_append_zeros)

lemma tl_zfill: "a \<noteq> [] \<Longrightarrow> tl (zfill n a) = zfill (n - 1) (tl a)"
  by (cases a) (simp_all add: zfill_def)

lemma length_zfill: "length c \<le> n \<Longrightarrow> length (zfill n c) = n"
  by (simp add: zfill_def)

lemma delay_line_start:
  "length bs = length as \<Longrightarrow> delay_line bs as [] [] = replicate (length bs) 0"
  by (induction bs as rule: list_induct2) (simp_all add: dot_def)

lemma lfilter_loop_exact:
  assumes "bn \<noteq> []" "length bn = length an"
    and "\<And>v. dot bn v = dot b v / hd a" "\<And>v. dot (tl an) v = dot (tl a) v / hd a"
  shows "lfilter_loop (\<lambda>v. v) bn an (delay_line (tl bn) (tl an) px py) xs = lfilter_run b a px py xs"
proof (induction xs arbitrary: px py)
  case Nil
  show ?case by simp
next
  case (Cons x xs)
  let ?y = "(dot b (x # px) - dot (tl a) py) / hd a"
  have y: "?y = dot bn (x # px) - dot (tl an) py"
    by (simp add: assms(3,4) diff_divide_distrib)
  from assms(1) obtain b0 bs where bn: "bn = b0 # bs" by (cases bn) auto
  with assms(2) obtain a0 as where an: "an = a0 # as" by (cases an) auto
  have l: "length bs = length as" using assms(2) bn an by simp
  show ?case
  proof (cases "1 < length bn")
    case True
    then obtain b1 bs' where bs: "bs = b1 # bs'" using bn by (cases bs) auto
    with l obtain a1 as' where as: "as = a1 # as'" by (cases as) auto
    have h: "hd (delay_line (tl bn) (tl an) px py) + hd bn * x = ?y"
      unfolding y by (simp add: bn an bs as dot_def)
    have d: "delays (\<lambda>v. v) (tl bn) (tl an) (tl (delay_line (tl bn) (tl an) px py)) x ?y
              = delay_line (tl bn) (tl an) (x # px) (?y # py)"
      by (rule delays_delay_line) (simp add: bn an l)
    show ?thesis
      using True by (simp add: Let_def h d Cons.IH)
  next
    case False
    then have "bs = []" using bn by (cases bs) auto
    with l have "as = []" by simp
    have h: "x * hd bn = ?y"
      unfolding y by (simp add: bn an \<open>bs = []\<close> \<open>as = []\<close> dot_def)
    have z: "delay_line (tl bn) (tl an) px py = delay_line (tl bn) (tl an) (x # px) (?y # py)"
      by (simp add: bn an \<open>bs = []\<close> \<open>as = []\<close>)
    show ?thesis
      using False Cons.IH[of "x # px" "?y # py"] by (simp add: Let_def h z[symmetric])
  qed
qed

lemma lfilter_r_exact: "lfilter_r (\<lambda>v. v) b a x = lfilter b a x"
proof (cases "a = [] \<or> hd a = 0")
  case True
  then show ?thesis by (simp add: lfilter_r_def lfilter_def)
next
  case False
  then have a: "a \<noteq> []" "hd a \<noteq> 0" by auto
  define n where "n = max (length a) (length b)"
  define bn where "bn = map (\<lambda>v. v / hd a) (zfill n b)"
  define an where "an = map (\<lambda>v. v / hd a) (zfill n a)"
  have n1: "1 \<le> n" using a(1) by (cases a) (simp_all add: n_def)
  have lb: "length bn = n" by (simp add: bn_def n_def length_zfill)
  have la: "length an = n" by (simp add: an_def n_def length_zfill)
  have bne: "bn \<noteq> []" using lb n1 by auto
  have db: "dot bn v = dot b v / hd a" for v
    by (simp add: bn_def dot_normalised)
  have "tl an = map (\<lambda>v. v / hd a) (tl (zfill n a))"
    by (simp only: an_def map_tl)
  then have "tl an = map (\<lambda>v. v / hd a) (zfill (n - 1) (tl a))"
    by (simp only: tl_zfill[OF a(1)])
  then have da: "dot (tl an) v = dot (tl a) v / hd a" for v
    by (simp add: dot_normalised)
  have "delay_line (tl bn) (tl an) [] [] = replicate (length (tl bn)) 0"
    by (rule delay_line_start) (simp add: lb la)
  then have z: "replicate (n - 1) 0 = delay_line (tl bn) (tl an) [] []"
    by (simp add: lb)
  have "lfilter_loop (\<lambda>v. v) bn an (replicate (n - 1) 0) x = lfilter_run b a [] [] x"
    unfolding z by (rule lfilter_loop_exact[OF bne _ db da]) (simp add: lb la)
  then show ?thesis
    using False by (simp add: lfilter_r_def lfilter_def Let_def n_def[symmetric] bn_def[symmetric] an_def[symmetric])
qed

lemma np_iadd_r_exact: "np_iadd_r (\<lambda>v. v) y z = np_iadd y z"
  by (simp add: np_iadd_r_def np_iadd_def)

lemma vadd_r_exact: "vadd_r (\<lambda>v. v) u v = vadd u v"
  by (simp add: vadd_r_def vadd_def)

lemma parfilt_loop_r_exact:
  "parfilt_loop_r (\<lambda>v. v) Bm Am x ks y = parfilt_loop Bm Am x ks y"
  by (induction ks arbitrary: y) (simp_all add: lfilter_r_exact np_iadd_r_exact bindr_def split: sum.splits)

lemma parfilt_r_exact: "parfilt_r (\<lambda>v. v) Bm Am FIR x = parfilt Bm Am FIR x"
  by (simp add: parfilt_r_def parfilt_def parfilt_loop_r_exact lfilter_r_exact np_iadd_r_exact)

lemma fl64_tenth: "fl64 tenth64 = tenth64"
  unfolding tenth64_def
  using fl64_dyadic[of 3602879701896397 "- 55"] by (simp add: powr_neg_numeral)

lemma fl64_sum: "fl64 (tenth64 + three_tenths64) = 3602879701896397 / 2 ^ 53"
  unfolding tenth64_def three_tenths64_def
  by (subst fl64_at_tie[where k = "- 2" and n = 7205759403792793]) (simp_all add: powr_neg_numeral)

lemma fl64_prod_sum: "fl64 (tenth64 * (3602879701896397 / 2 ^ 53)) = 1441151880758559 / 2 ^ 55"
  unfolding tenth64_def
  by (subst fl64_at[where k = "- 5" and n = 5764607523034236]) (simp_all add: powr_neg_numeral)

lemma fl64_prod_1: "fl64 (tenth64 * tenth64) = 1441151880758559 / 2 ^ 57"
  unfolding tenth64_def
  by (subst fl64_at[where k = "- 7" and n = 5764607523034236]) (simp_all add: powr_neg_numeral)

lemma fl64_prod_2: "fl64 (tenth64 * three_tenths64) = 1080863910568919 / 2 ^ 55"
  unfolding tenth64_def three_tenths64_def
  by (subst fl64_at[where k = "- 6" and n = 8646911284551352]) (simp_all add: powr_neg_numeral)

lemma fl64_sum_prods:
  "fl64 (1441151880758559 / 2 ^ 57 + 1080863910568919 / 2 ^ 55) = 5764607523034235 / 2 ^ 57"
  by (subst fl64_at[where k = "- 5" and n = 5764607523034235]) (simp_all add: powr_neg_numeral)

lemma fl64_fix_1: "fl64 (1441151880758559 / 2 ^ 55) = 1441151880758559 / 2 ^ 55"
  using fl64_dyadic[of 1441151880758559 "- 55"] by (simp add: powr_neg_numeral)

lemma fl64_fix_2: "fl64 (1441151880758559 / 2 ^ 57) = 1441151880758559 / 2 ^ 57"
  using fl64_dyadic[of 1441151880758559 "- 57"] by (simp add: powr_neg_numeral)

lemma fl64_fix_3: "fl64 (1080863910568919 / 2 ^ 55) = 1080863910568919 / 2 ^ 55"
  using fl64_dyadic[of 1080863910568919 "- 55"] by (simp add: powr_neg_numeral)

lemma vadd_r_single: "vadd_r rnd [a] [b] = [rnd (a + b)]"
  by (simp add: vadd_r_def)

lemma parfilt_one_section:
  "parfilt_r fl64 one_section_B one_section_A [0] [x] =
     Inr [fl64 (fl64 (fl64 (fl64 (fl64 tenth64 * x))))]"
  by (simp add: parfilt_r_def bindr_def column_def one_section_B_def one_section_A_def
      lfilter_r_def zfill_def np_iadd_r_def upt_conv_Cons Let_def numeral_2_eq_2 numeral_3_eq_3)

text \<open>
  Claim C5, as the program has it. In exact arithmetic the synthesizer is additive in
  its signal input: for every coefficient set and all input signals \<open>x1\<close>, \<open>x2\<close> of the
  same length, whenever the synthesizer without rounding returns on \<open>x1\<close> and on \<open>x2\<close>,
  its output on \<open>x1 + x2\<close> is the sum of the two outputs; and it does return on all
  three for every coefficient set in which \<open>Bm\<close> has a column for each column of \<open>Am\<close>
  and every column of \<open>Am\<close> has a non-zero leading coefficient.
\<close>

theorem parfilt_exact_additive:
  assumes "length x1 = length x2"
  shows "(\<forall>r1 r2. parfilt_r (\<lambda>v. v) Bm Am FIR x1 = Inr r1 \<and>
                  parfilt_r (\<lambda>v. v) Bm Am FIR x2 = Inr r2 \<longrightarrow>
            parfilt_r (\<lambda>v. v) Bm Am FIR (vadd_r (\<lambda>v. v) x1 x2)
              = Inr (vadd_r (\<lambda>v. v) r1 r2)) \<and>
         (shape1 Am \<le> shape1 Bm \<and> (\<forall>k<shape1 Am. 0 < shape0 Am \<and> entry Am 0 k \<noteq> 0) \<longrightarrow>
            (\<exists>r1 r2. parfilt_r (\<lambda>v. v) Bm Am FIR x1 = Inr r1 \<and>
                     parfilt_r (\<lambda>v. v) Bm Am FIR x2 = Inr r2 \<and>
                     parfilt_r (\<lambda>v. v) Bm Am FIR (vadd_r (\<lambda>v. v) x1 x2)
                       = Inr (vadd_r (\<lambda>v. v) r1 r2)))"
  unfolding parfilt_r_exact vadd_r_exact
proof (intro conjI allI impI)
  fix r1 r2
  assume "parfilt Bm Am FIR x1 = Inr r1 \<and> parfilt Bm Am FIR x2 = Inr r2"
  then show "parfilt Bm Am FIR (vadd x1 x2) = Inr (vadd r1 r2)"
    using parfilt_vadd[OF assms] by blast
next
  assume wf: "shape1 Am \<le> shape1 Bm \<and> (\<forall>k<shape1 Am. 0 < shape0 Am \<and> entry Am 0 k \<noteq> 0)"
  from parfilt_total[OF wf] obtain r1 where r1: "parfilt Bm Am FIR x1 = Inr r1" by blast
  from parfilt_total[OF wf] obtain r2 where r2: "parfilt Bm Am FIR x2 = Inr r2" by blast
  from parfilt_vadd[OF assms r1 r2] r1 r2
  show "\<exists>r1 r2. parfilt Bm Am FIR x1 = Inr r1 \<and> parfilt Bm Am FIR x2 = Inr r2 \<and>
               parfilt Bm Am FIR (vadd x1 x2) = Inr (vadd r1 r2)"
    by blast
qed

theorem parfilt_exact_additive_witness:
  "parfilt_r (\<lambda>v. v) \<lparr>shape0 = 2, shape1 = 1, entry = (\<lambda>i k. [1, 0] ! i)\<rparr>
           \<lparr>shape0 = 2, shape1 = 1, entry = (\<lambda>i k. [1, - (1 / 2)] ! i)\<rparr> [1]
           (vadd_r (\<lambda>v. v) [1, 0] [0, 1])
     = Inr [2, 5 / 2] \<and>
   (\<exists>r1 r2.
      parfilt_r (\<lambda>v. v) \<lparr>shape0 = 2, shape1 = 1, entry = (\<lambda>i k. [1, 0] ! i)\<rparr>
           \<lparr>shape0 = 2, shape1 = 1, entry = (\<lambda>i k. [1, - (1 / 2)] ! i)\<rparr> [1] [1, 0] = Inr r1 \<and>
      parfilt_r (\<lambda>v. v) \<lparr>shape0 = 2, shape1 = 1, entry = (\<lambda>i k. [1, 0] ! i)\<rparr>
           \<lparr>shape0 = 2, shape1 = 1, entry = (\<lambda>i k. [1, - (1 / 2)] ! i)\<rparr> [1] [0, 1] = Inr r2 \<and>
      parfilt_r (\<lambda>v. v) \<lparr>shape0 = 2, shape1 = 1, entry = (\<lambda>i k. [1, 0] ! i)\<rparr>
           \<lparr>shape0 = 2, shape1 = 1, entry = (\<lambda>i k. [1, - (1 / 2)] ! i)\<rparr> [1]
           (vadd_r (\<lambda>v. v) [1, 0] [0, 1]) = Inr (vadd_r (\<lambda>v. v) r1 r2))"
proof -
  let ?B = "\<lparr>shape0 = 2, shape1 = 1, entry = (\<lambda>i k. [1, 0 :: real] ! i)\<rparr>"
  let ?A = "\<lparr>shape0 = 2, shape1 = 1, entry = (\<lambda>i k. [1, - (1 / 2) :: real] ! i)\<rparr>"
  have l: "length [1, 0::real] = length [0, 1::real]" by simp
  have wf: "shape1 ?A \<le> shape1 ?B \<and> (\<forall>k<shape1 ?A. 0 < shape0 ?A \<and> entry ?A 0 k \<noteq> 0)"
    by simp
  have e1: "parfilt_r (\<lambda>v. v) ?B ?A [1] [1, 0] = Inr [2, 1 / 2]"
    by (simp only: parfilt_r_exact parfilt_example_1)
  have e2: "parfilt_r (\<lambda>v. v) ?B ?A [1] [0, 1] = Inr [0, 2]"
    by (simp only: parfilt_r_exact parfilt_example_2)
  note t = parfilt_exact_additive[OF l, of ?B ?A "[1]"]
  from t e1 e2
  have "parfilt_r (\<lambda>v. v) ?B ?A [1] (vadd_r (\<lambda>v. v) [1, 0] [0, 1])
          = Inr (vadd_r (\<lambda>v. v) [2, 1 / 2] [0, 2])"
    by blast
  then have 1: "parfilt_r (\<lambda>v. v) ?B ?A [1] (vadd_r (\<lambda>v. v) [1, 0] [0, 1]) = Inr [2, 5 / 2]"
    by (simp add: vadd_r_def)
  from t wf
  have 2: "\<exists>r1 r2. parfilt_r (\<lambda>v. v) ?B ?A [1] [1, 0] = Inr r1 \<and>
             parfilt_r (\<lambda>v. v) ?B ?A [1] [0, 1] = Inr r2 \<and>
             parfilt_r (\<lambda>v. v) ?B ?A [1] (vadd_r (\<lambda>v. v) [1, 0] [0, 1])
               = Inr (vadd_r (\<lambda>v. v) r1 r2)"
    by blast
  from 1 2 show ?thesis by blast
qed

text \<open>
  The claim as the specification words it, an equality of the outputs the program
  computes, fails in binary64 arithmetic. With one section of numerator \<open>[0.1, 0, 0]\<close>
  and denominator \<open>[1, 0, 0]\<close>, a zero direct path and the one-sample signals \<open>[0.1]\<close>
  and \<open>[0.3]\<close>, the output on the sum is \<open>0.04000000000000001\<close> and the sum of the
  outputs is \<open>0.04\<close>: they differ in the last place.
\<close>

theorem parfilt_binary64_counterexample:
  "parfilt_r fl64 one_section_B one_section_A [0] (vadd_r fl64 [tenth64] [three_tenths64])
     = Inr [1441151880758559 / 2 ^ 55] \<and>
   parfilt_r fl64 one_section_B one_section_A [0] [tenth64] = Inr [1441151880758559 / 2 ^ 57] \<and>
   parfilt_r fl64 one_section_B one_section_A [0] [three_tenths64] = Inr [1080863910568919 / 2 ^ 55] \<and>
   vadd_r fl64 [1441151880758559 / 2 ^ 57] [1080863910568919 / 2 ^ 55]
     = [5764607523034235 / 2 ^ 57] \<and>
   (1441151880758559 / 2 ^ 55 :: real) \<noteq> 5764607523034235 / 2 ^ 57"
proof -
  have 1: "vadd_r fl64 [tenth64] [three_tenths64] = [3602879701896397 / 2 ^ 53]"
    by (simp only: vadd_r_single fl64_sum)
  have 2: "parfilt_r fl64 one_section_B one_section_A [0] [3602879701896397 / 2 ^ 53]
             = Inr [1441151880758559 / 2 ^ 55]"
    by (simp only: parfilt_one_section fl64_tenth fl64_prod_sum fl64_fix_1)
  have 3: "parfilt_r fl64 one_section_B one_section_A [0] [tenth64] = Inr [1441151880758559 / 2 ^ 57]"
    by (simp only: parfilt_one_section fl64_tenth fl64_prod_1 fl64_fix_2)
  have 4: "parfilt_r fl64 one_section_B one_section_A [0] [three_tenths64]
             = Inr [1080863910568919 / 2 ^ 55]"
    by (simp only: parfilt_one_section fl64_tenth fl64_prod_2 fl64_fix_3)
  have 5: "vadd_r fl64 [1441151880758559 / 2 ^ 57] [1080863910568919 / 2 ^ 55]
             = [5764607523034235 / 2 ^ 57]"
    by (simp only: vadd_r_single fl64_sum_prods)
  have 6: "(1441151880758559 / 2 ^ 55 :: real) \<noteq> 5764607523034235 / 2 ^ 57"
    by simp
  show ?thesis
    unfolding 1 using 2 3 4 5 6 by blast
qed

text \<open>
  Claim C10. Whenever the synthesizer returns, its output has the length of the input;
  and it returns for every coefficient set in which \<open>Bm\<close> has a column for each column
  of \<open>Am\<close> and every column of \<open>Am\<close> has a non-zero leading coefficient.
\<close>

theorem parfilt_length:
  "(\<forall>y. parfilt Bm Am FIR x = Inr y \<longrightarrow> length y = length x) \<and>
   (shape1 Am \<le> shape1 Bm \<and> (\<forall>k<shape1 Am. 0 < shape0 Am \<and> entry Am 0 k \<noteq> 0) \<longrightarrow>
      (\<exists>y. parfilt Bm Am FIR x = Inr y \<and> length y = length x))"
proof (intro conjI allI impI)
  fix y assume "parfilt Bm Am FIR x = Inr y"
  then show "length y = length x" by (rule parfilt_returns_length)
next
  assume wf: "shape1 Am \<le> shape1 Bm \<and> (\<forall>k<shape1 Am. 0 < shape0 Am \<and> entry Am 0 k \<noteq> 0)"
  from parfilt_total[OF wf] obtain y where y: "parfilt Bm Am FIR x = Inr y" by blast
  then show "\<exists>y. parfilt Bm Am FIR x = Inr y \<and> length y = length x"
    using parfilt_returns_length[OF y] by blast
qed

theorem parfilt_length_witness:
  "length [2, 1 / 2 :: real] = length [1, 0 :: real] \<and>
   (\<exists>y. parfilt \<lparr>shape0 = 2, shape1 = 1, entry = (\<lambda>i k. [1, 0] ! i)\<rparr>
           \<lparr>shape0 = 2, shape1 = 1, entry = (\<lambda>i k. [1, - (1 / 2)] ! i)\<rparr> [1] [1, 0] = Inr y \<and>
        length y = length [1, 0 :: real])"
proof -
  let ?B = "\<lparr>shape0 = 2, shape1 = 1, entry = (\<lambda>i k. [1, 0 :: real] ! i)\<rparr>"
  let ?A = "\<lparr>shape0 = 2, shape1 = 1, entry = (\<lambda>i k. [1, - (1 / 2) :: real] ! i)\<rparr>"
  have wf: "shape1 ?A \<le> shape1 ?B \<and> (\<forall>k<shape1 ?A. 0 < shape0 ?A \<and> entry ?A 0 k \<noteq> 0)"
    by simp
  from parfilt_length[of ?B ?A "[1]" "[1, 0]"] parfilt_example_1 wf
  show ?thesis by blast
qed

section \<open>Properties of the Pole Grid Generator\<close>

lemma length_linspace [simp]: "length (linspace a b n) = n"
  by (simp add: linspace_def Let_def)

lemma length_logspace [simp]: "length (logspace a b n) = n"
  by (simp add: logspace_def)

lemma length_fplog [simp]: "length fplog = 25"
  by (simp add: fplog_def)

lemma length_wp [simp]: "length (wp Fs) = 25"
  by (simp add: wp_def)

lemma length_p [simp]: "length (p Fs) = 25"
  by (simp add: p_def)

lemma length_plog: "length (plog Fs) = 50"
  by (simp add: plog_def)

lemma plog_conj_closed:
  assumes "q \<in> set (plog Fs)"
  shows "cnj q \<in> set (plog Fs)"
proof -
  from assms have "q \<in> set (p Fs) \<or> q \<in> cnj ` set (p Fs)" by (simp add: plog_def)
  then show ?thesis
  proof
    assume "q \<in> set (p Fs)"
    then show ?thesis by (simp add: plog_def)
  next
    assume "q \<in> cnj ` set (p Fs)"
    then obtain r where "r \<in> set (p Fs)" "q = cnj r" by blast
    then show ?thesis by (simp add: plog_def)
  qed
qed

lemma cmod_pole:
  "cmod (complex_of_real (R powr t) * exp (\<i> * complex_of_real w)) = R powr t"
  by (simp add: norm_mult cis_conv_exp[symmetric])

lemma p_nth:
  assumes "k < 25"
  shows "p Fs ! k = complex_of_real (R powr (2 * (fplog ! k) / real_of_int Fs))
                      * exp (\<i> * complex_of_real (2 * pi * (fplog ! k) / real_of_int Fs))"
  using assms by (simp add: p_def wp_def)

lemma plog_nth:
  assumes "k < 25"
  shows "plog Fs ! k = p Fs ! k" "plog Fs ! (25 + k) = cnj (p Fs ! k)"
  using assms by (simp_all add: plog_def nth_append)

lemma cmod_plog:
  assumes "k < 25"
  shows "cmod (plog Fs ! k) = R powr (2 * (fplog ! k) / real_of_int Fs)"
    and "cmod (plog Fs ! (25 + k)) = R powr (2 * (fplog ! k) / real_of_int Fs)"
  using assms by (simp_all only: plog_nth p_nth cmod_pole complex_mod_cnj)

lemma R_powr_eq_R: "R powr t = R \<longleftrightarrow> t = 1"
proof -
  have "R powr t = R powr 1 \<longleftrightarrow> t = 1"
    by (rule powr_inj) (simp_all add: R_def)
  then show ?thesis by (simp add: R_def)
qed

lemma fplog_0: "fplog ! 0 = 30"
  by (simp add: fplog_def logspace_def linspace_def Let_def nth_append upt_conv_Cons)

lemma small_power: "(0.99::real) ^ 800 < 0.5"
proof -
  have "(0.99::real) ^ 800 = (0.99 ^ 100) ^ 8" by (simp add: power_mult[symmetric])
  also have "\<dots> \<le> (0.99 ^ 100) ^ 1"
  proof (rule power_decreasing)
    show "(0.99::real) ^ 100 \<le> 1" by (rule power_le_one) simp_all
  qed simp_all
  also have "\<dots> < 0.5" by (simp add: power_divide)
  finally show ?thesis .
qed

lemma first_pole_radius: "0.99 < R powr (2 * 30 / real_of_int 48000)"
proof (rule ccontr)
  let ?m = "R powr (2 * 30 / real_of_int 48000)"
  assume "\<not> 0.99 < ?m"
  then have le: "?m \<le> 0.99" by simp
  have "?m ^ 800 = R powr ((2 * 30 / real_of_int 48000) * 800)"
    by (simp add: powr_powr powr_realpow[symmetric] R_def)
  also have "\<dots> = 0.5" by (simp add: R_def)
  finally have e: "?m ^ 800 = 0.5" .
  have "?m ^ 800 \<le> 0.99 ^ 800" by (rule power_mono[OF le]) simp
  with small_power e show False by linarith
qed

text \<open>
  Claim C2, as the program has it. For a positive sample rate \<open>Fs\<close>, the pole at grid
  frequency \<open>f\<close> and its conjugate have magnitude \<open>R\<close> to the power \<open>2 f / Fs\<close>, that is
  \<open>R\<close> to the power \<open>\<omega>/\<pi>\<close>; this is \<open>R\<close> itself exactly when \<open>f\<close> is the Nyquist
  frequency \<open>Fs / 2\<close>.
\<close>

theorem pole_magnitude:
  assumes "0 < Fs" "k < 25"
  shows "cmod (plog Fs ! k) = R powr (2 * (fplog ! k) / real_of_int Fs) \<and>
         cmod (plog Fs ! (25 + k)) = R powr (2 * (fplog ! k) / real_of_int Fs) \<and>
         (cmod (plog Fs ! k) = R \<longleftrightarrow> 2 * (fplog ! k) = real_of_int Fs)"
proof -
  have "2 * (fplog ! k) / real_of_int Fs = 1 \<longleftrightarrow> 2 * (fplog ! k) = real_of_int Fs"
    using assms(1) by (auto simp: field_simps)
  then show ?thesis
    using cmod_plog[OF assms(2), of Fs] R_powr_eq_R by simp
qed

theorem pole_magnitude_witness:
  "cmod (plog 48000 ! 0) = R powr (1 / 800) \<and> cmod (plog 48000 ! 25) = R powr (1 / 800) \<and>
   cmod (plog 48000 ! 0) \<noteq> R"
proof -
  have h: "(0::int) < 48000" "(0::nat) < 25" by simp_all
  from pole_magnitude[OF h] show ?thesis by (simp add: fplog_0)
qed

text \<open>
  The claim as the specification words it fails at the first pole for a sample rate of
  48000: its magnitude exceeds 0.99 while \<open>R\<close> is 0.5.
\<close>

theorem pole_magnitude_counterexample:
  "R = 0.5 \<and> 0.99 < cmod (plog 48000 ! 0)"
  using cmod_plog(1)[of 0 48000] first_pole_radius by (simp add: fplog_0 R_def)

text \<open>
  Claim C7. For a positive sample rate, the pole array has 50 entries, and the
  conjugate of every pole in it is in it.
\<close>

theorem plog_conj_closed_50:
  assumes "0 < Fs"
  shows "length (plog Fs) = 50 \<and> (\<forall>q\<in>set (plog Fs). cnj q \<in> set (plog Fs))"
  using length_plog plog_conj_closed by blast

theorem plog_conj_closed_50_witness:
  "length (plog 48000) = 50 \<and> cnj (plog 48000 ! 0) \<in> set (plog 48000)"
proof -
  have h: "(0::int) < 48000" by simp
  have "plog 48000 ! 0 \<in> set (plog 48000)"
    by (rule nth_mem) (simp add: length_plog)
  with plog_conj_closed_50[OF h] show ?thesis by blast
qed

section \<open>The transform pair\<close>

lemma dft_nth:
  "k < length xs \<Longrightarrow>
   dft xs ! k = (\<Sum>j<length xs. xs ! j * cis (- (2 * pi * real j * real k / real (length xs))))"
  by (simp add: dft_def Let_def)

lemma idft_nth:
  "k < length xs \<Longrightarrow>
   idft xs ! k = (\<Sum>j<length xs. xs ! j * cis (2 * pi * real j * real k / real (length xs)))
                   / of_nat (length xs)"
  by (simp add: idft_def Let_def)

lemma cis_eq_1_small:
  assumes "cis t = 1" "- (2 * pi) < t" "t < 2 * pi"
  shows "t = 0"
proof -
  from assms(1) have "cos t = 1" by (simp add: complex_eq_iff)
  then obtain n :: int where n: "t = real_of_int n * 2 * pi" using cos_one_2pi_int by blast
  have c: "0 < 2 * pi" by simp
  have "(- 1) * (2 * pi) < real_of_int n * (2 * pi)" using assms(2) n by simp
  then have "- 1 < real_of_int n" by (simp only: mult_less_cancel_right_pos[OF c])
  moreover have "real_of_int n * (2 * pi) < 1 * (2 * pi)" using assms(3) n by simp
  then have "real_of_int n < 1" by (simp only: mult_less_cancel_right_pos[OF c])
  ultimately have "n = 0" by linarith
  with n show ?thesis by simp
qed

text \<open>The roots of unity of order \<open>n\<close> sum to zero along any non-trivial power.\<close>

lemma root_sum:
  fixes d :: int
  assumes "0 < n" "d \<noteq> 0" "\<bar>d\<bar> < int n"
  shows "(\<Sum>j<n. cis (2 * pi * real j * real_of_int d / real n)) = 0"
proof -
  let ?z = "cis (2 * pi * real_of_int d / real n)"
  have zj: "cis (2 * pi * real j * real_of_int d / real n) = ?z ^ j" for j
    by (simp add: DeMoivre algebra_simps)
  have zn: "?z ^ n = 1"
  proof -
    have "?z ^ n = cis (2 * pi * real_of_int d)"
      using assms(1) by (simp add: DeMoivre)
    also have "\<dots> = 1" by (rule cis_multiple_2pi) simp
    finally show ?thesis .
  qed
  have z1: "?z \<noteq> 1"
  proof
    assume one: "?z = 1"
    have npos: "0 < real n" using assms(1) by simp
    have "\<bar>real_of_int d\<bar> < real n" using assms(3) by linarith
    then have b: "\<bar>real_of_int d / real n\<bar> < 1" using npos by simp
    have t: "2 * pi * real_of_int d / real n = 2 * pi * (real_of_int d / real n)" by simp
    have r: "- 1 < real_of_int d / real n" "real_of_int d / real n < 1"
      using b by (auto simp only: abs_less_iff minus_less_iff)
    have "2 * pi * (- 1) < 2 * pi * (real_of_int d / real n)"
      by (rule mult_strict_left_mono[OF r(1)]) simp
    moreover have "2 * pi * (real_of_int d / real n) < 2 * pi * 1"
      by (rule mult_strict_left_mono[OF r(2)]) simp
    ultimately have "- (2 * pi) < 2 * pi * (real_of_int d / real n)"
      "2 * pi * (real_of_int d / real n) < 2 * pi"
      by simp_all
    with one have "2 * pi * (real_of_int d / real n) = 0"
      unfolding t by (intro cis_eq_1_small) auto
    then show False using assms(2) npos by simp
  qed
  have "(\<Sum>j<n. ?z ^ j) = (?z ^ n - 1) / (?z - 1)"
    using z1 by (rule geometric_sum)
  then show ?thesis by (simp add: zj zn)
qed

lemma root_sum_delta:
  assumes "k < n" "m < n"
  shows "(\<Sum>j<n. cis (2 * pi * real m * real j / real n)
                  * cis (- (2 * pi * real j * real k / real n)))
          = (if m = k then of_nat n else 0)"
proof -
  have e: "cis (2 * pi * real m * real j / real n) * cis (- (2 * pi * real j * real k / real n))
      = cis (2 * pi * real j * real_of_int (int m - int k) / real n)" for j
    by (simp add: cis_mult algebra_simps diff_divide_distrib)
  show ?thesis
  proof (cases "m = k")
    case True
    then show ?thesis unfolding e by simp
  next
    case False
    have "(\<Sum>j<n. cis (2 * pi * real j * real_of_int (int m - int k) / real n)) = 0"
      by (rule root_sum) (use assms False in auto)
    then show ?thesis using False by (simp only: e if_False)
  qed
qed

text \<open>The forward transform undoes the inverse transform.\<close>

lemma dft_idft: "dft (idft ys) = ys"
proof (rule nth_equalityI)
  show "length (dft (idft ys)) = length ys" by simp
next
  fix k assume "k < length (dft (idft ys))"
  then have k: "k < length ys" by simp
  let ?n = "length ys"
  have npos: "0 < ?n" using k by auto
  have "dft (idft ys) ! k = (\<Sum>j<?n. idft ys ! j * cis (- (2 * pi * real j * real k / real ?n)))"
    using k by (simp add: dft_nth)
  also have "\<dots> = (\<Sum>j<?n. ((\<Sum>m<?n. ys ! m * cis (2 * pi * real m * real j / real ?n))
                         / of_nat ?n) * cis (- (2 * pi * real j * real k / real ?n)))"
    by (rule sum.cong) (simp_all add: idft_nth)
  also have "\<dots> = (\<Sum>j<?n. \<Sum>m<?n. ys ! m * (cis (2 * pi * real m * real j / real ?n)
                       * cis (- (2 * pi * real j * real k / real ?n))) / of_nat ?n)"
    by (simp add: sum_divide_distrib sum_distrib_right mult.assoc)
  also have "\<dots> = (\<Sum>m<?n. \<Sum>j<?n. ys ! m * (cis (2 * pi * real m * real j / real ?n)
                       * cis (- (2 * pi * real j * real k / real ?n))) / of_nat ?n)"
    by (rule sum.swap)
  also have "\<dots> = (\<Sum>m<?n. ys ! m * (\<Sum>j<?n. cis (2 * pi * real m * real j / real ?n)
                       * cis (- (2 * pi * real j * real k / real ?n))) / of_nat ?n)"
    by (simp add: sum_divide_distrib sum_distrib_left)
  also have "\<dots> = (\<Sum>m<?n. ys ! m * (if m = k then of_nat ?n else 0) / of_nat ?n)"
    by (rule sum.cong) (simp_all add: root_sum_delta[OF k])
  also have "\<dots> = (\<Sum>m<?n. if m = k then ys ! k else 0)"
    by (rule sum.cong) (use npos in auto)
  also have "\<dots> = ys ! k"
    using k by simp
  finally show "dft (idft ys) ! k = ys ! k" .
qed

lemma dft_scale: "dft (map (\<lambda>v. v * c) xs) = map (\<lambda>v. v * c) (dft xs)"
proof (rule nth_equalityI)
  show "length (dft (map (\<lambda>v. v * c) xs)) = length (map (\<lambda>v. v * c) (dft xs))" by simp
next
  fix k assume "k < length (dft (map (\<lambda>v. v * c) xs))"
  then have k: "k < length xs" by simp
  let ?n = "length xs"
  have "dft (map (\<lambda>v. v * c) xs) ! k
      = (\<Sum>j<?n. map (\<lambda>v. v * c) xs ! j * cis (- (2 * pi * real j * real k / real ?n)))"
    using k by (simp add: dft_nth)
  also have "\<dots> = (\<Sum>j<?n. xs ! j * cis (- (2 * pi * real j * real k / real ?n)) * c)"
    by (rule sum.cong) (simp_all add: ac_simps)
  also have "\<dots> = (\<Sum>j<?n. xs ! j * cis (- (2 * pi * real j * real k / real ?n))) * c"
    by (simp only: sum_distrib_right)
  also have "\<dots> = map (\<lambda>v. v * c) (dft xs) ! k"
    using k by (simp add: dft_nth)
  finally show "dft (map (\<lambda>v. v * c) xs) ! k = map (\<lambda>v. v * c) (dft xs) ! k" .
qed

lemma dft_zero: "dft (replicate n 0) = replicate n 0"
  by (rule nth_equalityI) (simp_all add: dft_nth)

lemma idft_zero: "idft (replicate n 0) = replicate n 0"
  by (rule nth_equalityI) (simp_all add: idft_nth)

lemma idft_11: "idft [1, 1] = [1, 0]"
  by (simp add: idft_def Let_def upt_conv_Cons lessThan_Suc numeral_2_eq_2)

lemma dft_10: "dft [1, 0] = [1, 1]"
  by (simp add: dft_def Let_def upt_conv_Cons lessThan_Suc numeral_2_eq_2)

section \<open>Slices\<close>

lemma getslice_prefix:
  assumes "0 \<le> a" "a \<le> int (length xs)"
  shows "py_getslice xs 0 (Some a) = take (nat a) xs"
  using assms by (simp add: py_getslice_def slice_bounds_def Let_def max_def min_def)

lemma setslice_prefix:
  assumes "0 \<le> a" "a \<le> int (length ys)" "length vs = nat a"
  shows "py_setslice ys 0 (Some a) vs = Inr (vs @ drop (nat a) ys)"
  using assms by (simp add: py_setslice_def slice_bounds_def Let_def max_def min_def)

lemma getslice_suffix:
  assumes "0 < k" "k \<le> length xs"
  shows "py_getslice xs (- int k) None = drop (length xs - k) xs"
  using assms by (simp add: py_getslice_def slice_bounds_def Let_def max_def nat_diff_distrib')

lemma setslice_suffix:
  assumes "0 < k" "k \<le> length ys" "length vs = k"
  shows "py_setslice ys (- int k) None vs = Inr (take (length ys - k) ys @ vs)"
  using assms by (simp add: py_setslice_def slice_bounds_def Let_def max_def nat_diff_distrib')

lemma getslice_all: "py_getslice xs 0 None = xs"
  by (simp add: py_getslice_def slice_bounds_def Let_def)

lemma setslice_all:
  "py_setslice ys 0 None vs =
     (if length vs = length ys then Inr vs
      else if length vs = 1 then Inr (replicate (length ys) (hd vs))
      else Inl ValueError)"
  by (simp add: py_setslice_def slice_bounds_def Let_def)

section \<open>Properties of the Target Response Builder\<close>

lemma column_flat_table: "column flat_table 1 = Inr [1, 1]"
  by (simp add: column_def flat_table_def upt_conv_Cons)

lemma resample_unwindowed:
  assumes "x \<noteq> []"
  shows "resample x (int L) False =
     bindr (py_setslice (replicate L 0) 0 (Some ((min (int L) (int (length x)) + 1) div 2))
               (py_getslice (dft x) 0 (Some ((min (int L) (int (length x)) + 1) div 2)))) (\<lambda>Y1.
     bindr (py_setslice Y1 ((- (min (int L) (int (length x)) - 1)) div 2) None
               (py_getslice (dft x) ((- (min (int L) (int (length x)) - 1)) div 2) None)) (\<lambda>Y2.
     bindr (ifft Y2) (\<lambda>y.
     Inr (map (\<lambda>v. v * complex_of_real (real L / real (length x))) y))))"
  using assms by (simp add: resample_def fft_def np_zeros_def bindr_def Let_def)

lemma resample_impulse:
  assumes "2 \<le> L"
  shows "resample [1, 0] (int L) False =
     Inr (map (\<lambda>v. v * complex_of_real (real L / 2)) (idft (1 # replicate (L - 2) 0 @ [1])))"
proof -
  from assms obtain m where L: "L = Suc (Suc m)"
    by (metis add_2_eq_Suc le_Suc_ex)
  have N: "min (int L) 2 = 2" using assms by simp
  have g1: "py_getslice [1, 1::complex] 0 (Some 1) = [1]"
    by (simp add: getslice_prefix)
  have g2: "py_getslice [1, 1::complex] (- 1) None = [1]"
    using getslice_suffix[of 1 "[1, 1::complex]"] by simp
  have h: "py_setslice (replicate L 0) 0 (Some 1) [1::complex] = Inr (1 # replicate (L - Suc 0) 0)"
    using setslice_prefix[of 1 "replicate L (0::complex)" "[1]"] assms by simp
  have "replicate (Suc m) (0::complex) = replicate m 0 @ [0]"
    by (simp add: replicate_append_same)
  then have "take (Suc m) (1 # replicate (Suc m) (0::complex)) = 1 # replicate m 0"
    by simp
  then have l: "py_setslice (1 # replicate (L - Suc 0) 0) (- 1) None [1::complex]
                 = Inr (1 # replicate (L - 2) 0 @ [1])"
    using setslice_suffix[of 1 "1 # replicate (L - Suc 0) (0::complex)" "[1]"] by (simp add: L)
  have i: "ifft (1 # replicate (L - 2) 0 @ [1]) = Inr (idft (1 # replicate (L - 2) 0 @ [1]))"
    by (simp add: ifft_def)
  show ?thesis
    by (simp add: resample_unwindowed dft_10 N g1 g2 h l i bindr_def)
qed

lemma target_curve_flat:
  assumes "2 \<le> L"
  shows "target_curve flat_table L =
     Inr (map (\<lambda>v. v * complex_of_real (real L / 2)) (1 # replicate (L - 2) 0 @ [1]))"
proof -
  have i: "ifft (map complex_of_real [1, 1]) = Inr [1, 0]"
    using idft_11 by (simp add: ifft_def)
  let ?r = "map (\<lambda>v. v * complex_of_real (real L / 2)) (idft (1 # replicate (L - 2) 0 @ [1]))"
  have "?r \<noteq> []" by (simp add: idft_def Let_def)
  then have f: "fft ?r = Inr (dft ?r)" by (simp only: fft_def if_False)
  show ?thesis
    unfolding target_curve_def column_flat_table i resample_impulse[OF assms] f bindr_def sum.case
    by (simp only: dft_scale dft_idft)
qed

text \<open>
  Claim C8, as the program has it. For the two-row table \<open>[[0, 1.0], [1, 1.0]]\<close> and a
  minimum-phase response of length \<open>L \<ge> 2\<close>, the target spectrum has \<open>L\<close> bins; bins
  \<open>0\<close> and \<open>L - 1\<close> have magnitude \<open>L / 2\<close> and every other bin has magnitude zero. The
  magnitude is one in all bins only for \<open>L = 2\<close>.
\<close>

theorem target_curve_flat_bins:
  assumes "2 \<le> L"
  shows "\<exists>outf. target_curve flat_table L = Inr outf \<and> length outf = L \<and>
           (\<forall>k<L. cmod (outf ! k) = (if k = 0 \<or> k = L - 1 then real L / 2 else 0))"
proof -
  from assms obtain m where L: "L = Suc (Suc m)"
    by (metis add_2_eq_Suc le_Suc_ex)
  let ?Y = "1 # replicate (L - 2) 0 @ [1::complex]"
  let ?out = "map (\<lambda>v. v * complex_of_real (real L / 2)) ?Y"
  have t: "target_curve flat_table L = Inr ?out" by (rule target_curve_flat[OF assms])
  have l: "length ?out = L" using assms by simp
  have Y: "?Y ! k = (if k = 0 \<or> k = L - 1 then 1 else 0)" if "k < L" for k
    using that by (auto simp: L nth_Cons' nth_append)
  have "cmod (?out ! k) = (if k = 0 \<or> k = L - 1 then real L / 2 else 0)" if "k < L" for k
  proof -
    have "?out ! k = ?Y ! k * complex_of_real (real L / 2)"
      using that l by (simp only: nth_map length_map)
    then have e: "?out ! k = (if k = 0 \<or> k = L - 1 then 1 else 0) * complex_of_real (real L / 2)"
      by (simp only: Y[OF that])
    show ?thesis
      unfolding e by (simp add: norm_mult)
  qed
  with t l show ?thesis by blast
qed

theorem target_curve_flat_bins_witness:
  "\<exists>outf. target_curve flat_table 6 = Inr outf \<and> length outf = 6 \<and>
       cmod (outf ! 0) = 3 \<and> cmod (outf ! 1) = 0 \<and> cmod (outf ! 5) = 3"
proof -
  have h: "(2::nat) \<le> 6" by simp
  from target_curve_flat_bins[OF h] obtain outf where
    o: "target_curve flat_table 6 = Inr outf" "length outf = 6"
       "\<forall>k<6. cmod (outf ! k) = (if k = 0 \<or> k = 6 - 1 then real 6 / 2 else 0)"
    by blast
  have "cmod (outf ! 0) = 3" using o(3) by simp
  moreover have "cmod (outf ! 1) = 0" using o(3) by simp
  moreover have "cmod (outf ! 5) = 3" using o(3) by simp
  ultimately show ?thesis using o(1,2) by blast
qed

text \<open>
  The claim as the specification words it fails for a response of length four: the
  spectrum is \<open>[2, 0, 0, 2]\<close>.
\<close>

theorem target_curve_flat_counterexample:
  "target_curve flat_table 4 = Inr [2, 0, 0, 2]"
  using target_curve_flat[of 4] by (simp add: numeral_2_eq_2)

section \<open>Properties of the Equalizer Finalizer\<close>

lemma length_hann [simp]: "length (hann M s) = M"
  by (simp add: hann_def Let_def)

lemma length_ifftshift [simp]: "length (ifftshift x) = length x"
  by (simp add: ifftshift_def Let_def)

lemma fill_low:
  assumes "h \<le> length X" "h \<le> num"
  shows "py_setslice (replicate num (0::complex)) 0 (Some (int h)) (py_getslice X 0 (Some (int h)))
       = Inr (take h X @ replicate (num - h) 0)"
proof -
  have g: "py_getslice X 0 (Some (int h)) = take h X"
    using assms by (simp add: getslice_prefix)
  have "py_setslice (replicate num (0::complex)) 0 (Some (int h)) (take h X)
       = Inr (take h X @ drop (nat (int h)) (replicate num 0))"
    by (rule setslice_prefix) (use assms in simp_all)
  then show ?thesis by (simp add: g)
qed

lemma fill_high:
  fixes X :: "complex list"
  assumes "0 < k" "k \<le> length X" "k \<le> length Y1"
  shows "\<exists>Y. py_setslice Y1 (- int k) None (py_getslice X (- int k) None) = Inr Y \<and>
             length Y = length Y1"
proof -
  have g: "py_getslice X (- int k) None = drop (length X - k) X"
    using assms by (simp add: getslice_suffix)
  have "py_setslice Y1 (- int k) None (drop (length X - k) X)
       = Inr (take (length Y1 - k) Y1 @ drop (length X - k) X)"
    by (rule setslice_suffix) (use assms in simp_all)
  moreover have "length (take (length Y1 - k) Y1 @ drop (length X - k) X) = length Y1"
    using assms by simp
  ultimately show ?thesis by (simp add: g)
qed

lemma fill_high_one:
  assumes "length X = length Y1 \<or> length X = 1"
  shows "\<exists>Y. py_setslice Y1 0 None (py_getslice X 0 None) = Inr Y \<and> length Y = length Y1"
  using assms by (auto simp: getslice_all setslice_all)

text \<open>The two slice assignments of the resampler succeed and keep the length.\<close>

lemma fill_ok:
  fixes X :: "complex list"
  assumes "X \<noteq> []" "1 \<le> num" "2 \<le> num \<or> length X = 1"
    and "N = min (int num) (int (length X))"
  shows "\<exists>Y1 Y.
     py_setslice (replicate num 0) 0 (Some ((N + 1) div 2))
        (py_getslice X 0 (Some ((N + 1) div 2))) = Inr Y1 \<and>
     py_setslice Y1 ((- (N - 1)) div 2) None (py_getslice X ((- (N - 1)) div 2) None) = Inr Y \<and>
     length Y = num"
proof -
  let ?N = "min num (length X)"
  have N1: "1 \<le> ?N" using assms(1,2) by (cases X) auto
  have Nint: "N = int ?N" using assms(4) by simp
  let ?h = "(?N + 1) div 2"
  have h: "(N + 1) div 2 = int ?h" unfolding Nint by (simp add: zdiv_int)
  have hle: "?h \<le> length X" "?h \<le> num" using N1 by linarith+
  let ?Y1 = "take ?h X @ replicate (num - ?h) (0::complex)"
  have s1: "py_setslice (replicate num 0) 0 (Some ((N + 1) div 2))
              (py_getslice X 0 (Some ((N + 1) div 2))) = Inr ?Y1"
    unfolding h by (rule fill_low[OF hle])
  have lY1: "length ?Y1 = num" using hle by simp
  let ?k = "?N div 2"
  have s: "(- (N - 1)) div 2 = - int ?k"
  proof -
    have "(- (int ?N - 1)) div 2 = - (int ?N div 2)" by linarith
    then show ?thesis unfolding Nint by (simp add: zdiv_int)
  qed
  have "\<exists>Y. py_setslice ?Y1 ((- (N - 1)) div 2) None
              (py_getslice X ((- (N - 1)) div 2) None) = Inr Y \<and> length Y = length ?Y1"
  proof (cases "?N = 1")
    case True
    then have k0: "- int ?k = 0" by simp
    have lx: "length X = length ?Y1 \<or> length X = 1"
      unfolding lY1 using True assms(3) by (auto simp: min_def split: if_splits)
    show ?thesis unfolding s k0 by (rule fill_high_one[OF lx])
  next
    case False
    then have kpos: "0 < ?k" using N1 by linarith
    have kle: "?k \<le> length X" "?k \<le> length ?Y1" unfolding lY1 by linarith+
    show ?thesis unfolding s by (rule fill_high[OF kpos kle])
  qed
  then show ?thesis using s1 lY1 by metis
qed

lemma resample_steps:
  assumes "x \<noteq> []" "0 \<le> num"
    and "X = (if w then map2 (\<lambda>a w. a * complex_of_real w) (dft x)
                          (ifftshift (hann (length x) False))
              else dft x)"
    and "N = min num (int (length x))"
  shows "resample x num w =
     bindr (py_setslice (replicate (nat num) 0) 0 (Some ((N + 1) div 2))
              (py_getslice X 0 (Some ((N + 1) div 2)))) (\<lambda>Y1.
     bindr (py_setslice Y1 ((- (N - 1)) div 2) None
              (py_getslice X ((- (N - 1)) div 2) None)) (\<lambda>Y2.
     bindr (ifft Y2) (\<lambda>y.
     Inr (map (\<lambda>v. v * complex_of_real (real_of_int num / real (length x))) y))))"
proof -
  have f: "fft x = Inr (dft x)" using assms(1) by (simp add: fft_def)
  have z: "np_zeros num = Inr (replicate (nat num) 0)" using assms(2) by (simp add: np_zeros_def)
  have m: "map complex_of_real (replicate (nat num) 0) = replicate (nat num) 0" by simp
  show ?thesis
    unfolding resample_def f z assms(3,4) bindr_def[of "Inr _"] sum.case Let_def m ..
qed

lemma resample_ok:
  assumes "x \<noteq> []" "1 \<le> num" "2 \<le> num \<or> length x = 1"
  shows "\<exists>y. resample x num w = Inr y \<and> length y = nat num"
proof -
  define X where "X = (if w then map2 (\<lambda>a w. a * complex_of_real w) (dft x)
                                  (ifftshift (hann (length x) False))
                       else dft x)"
  define N where "N = min num (int (length x))"
  have lX: "length X = length x" by (simp add: X_def)
  then have Xne: "X \<noteq> []" using assms(1) by (metis length_0_conv)
  have N: "N = min (int (nat num)) (int (length X))" using assms(2) lX by (simp add: N_def)
  have pre: "1 \<le> nat num" "2 \<le> nat num \<or> length X = 1" using assms(2,3) lX by auto
  from fill_ok[OF Xne pre N] obtain Y1 Y where
    Y1: "py_setslice (replicate (nat num) 0) 0 (Some ((N + 1) div 2))
           (py_getslice X 0 (Some ((N + 1) div 2))) = Inr Y1" and
    Y: "py_setslice Y1 ((- (N - 1)) div 2) None
          (py_getslice X ((- (N - 1)) div 2) None) = Inr Y" and
    lY: "length Y = nat num" by blast
  have "Y \<noteq> []" using lY pre(1) by auto
  then have i: "ifft Y = Inr (idft Y)" by (simp add: ifft_def)
  have "0 \<le> num" using assms(2) by simp
  from resample_steps[OF assms(1) this X_def N_def]
  have "resample x num w =
          Inr (map (\<lambda>v. v * complex_of_real (real_of_int num / real (length x))) (idft Y))"
    by (simp only: Y1 Y i bindr_def sum.case)
  then show ?thesis using lY by simp
qed

text \<open>
  One tap cannot be taken from a spectrum of two or more bins: the second slice
  assignment then writes the whole spectrum into an array of length one.
\<close>

lemma resample_one_tap: "resample [1, 1] 1 w = Inl ValueError"
proof -
  define X where "X = (if w then map2 (\<lambda>a w. a * complex_of_real w) (dft [1, 1])
                                  (ifftshift (hann (length [1, 1::complex]) False))
                       else dft [1, 1])"
  have lX: "length X = 2" by (simp add: X_def)
  then obtain a b where X: "X = [a, b]"
    by (metis (no_types, opaque_lifting) length_0_conv length_Suc_conv numeral_2_eq_2)
  have N: "(1::int) = min 1 (int (length [1, 1::complex]))" by simp
  have z: "(0::int) \<le> 1" "[1, 1::complex] \<noteq> []" by simp_all
  have g1: "py_getslice [a, b] 0 (Some 1) = [a]" by (simp add: getslice_prefix)
  have s1: "py_setslice [0] 0 (Some 1) [a] = Inr [a]"
    using setslice_prefix[of 1 "[0]" "[a]"] by simp
  have s2: "py_setslice [a] 0 None [a, b] = Inl ValueError"
    by (simp add: setslice_all)
  show ?thesis
    unfolding resample_steps[OF z(2,1) X_def N] X
    by (simp add: g1 s1 getslice_all s2 bindr_def)
qed

lemma map2_zero:
  "map2 (\<lambda>a w. a * complex_of_real w) (replicate n 0) ws = replicate (min n (length ws)) 0"
  by (rule nth_equalityI) simp_all

lemma four_zeros: "[0, 0, 0, 0] = replicate 4 (0::complex)"
  by (simp add: numeral_eq_Suc)

lemma resample_zero4: "resample [0, 0, 0, 0] 4 True = Inr [0, 0, 0, 0]"
proof -
  have a: "py_getslice (replicate 4 (0::complex)) 0 (Some 2) = replicate 2 0"
    by (simp add: getslice_prefix)
  have b: "py_setslice (replicate 4 (0::complex)) 0 (Some 2) (replicate 2 0) = Inr (replicate 4 0)"
    by (simp add: setslice_prefix replicate_add[symmetric])
  have c: "py_getslice (replicate 4 (0::complex)) (- 2) None = replicate 2 0"
    using getslice_suffix[of 2 "replicate 4 (0::complex)"] by simp
  have d: "py_setslice (replicate 4 (0::complex)) (- 2) None (replicate 2 0) = Inr (replicate 4 0)"
    using setslice_suffix[of 2 "replicate 4 (0::complex)" "replicate 2 0"]
    by (simp add: replicate_add[symmetric])
  have i: "ifft (replicate 4 0) = Inr (replicate 4 0)"
    by (simp add: ifft_def idft_zero)
  show ?thesis
    unfolding four_zeros
    by (simp add: resample_def fft_def dft_zero map2_zero np_zeros_def bindr_def Let_def a b c d i)
qed

lemma equalizer_taps_zero4: "equalizer_taps [0, 0, 0, 0] 4 = Inr [0, 0, 0, 0]"
proof -
  have i: "ifft (replicate 4 0) = Inr (replicate 4 0)"
    by (simp add: ifft_def idft_zero)
  show ?thesis
    unfolding equalizer_taps_def resample_zero4 bindr_def sum.case
    unfolding four_zeros i by (simp add: four_zeros[symmetric])
qed

lemma idft_20: "idft [2, 0] = [1, 1]"
  by (simp add: idft_def Let_def upt_conv_Cons lessThan_Suc numeral_2_eq_2)

lemma dft_1: "dft [1] = [1]"
  by (simp add: dft_def Let_def)

lemma resample_one_bin: "resample [1] 2 True = Inr [2, 0]"
proof -
  have X: "[1] = (if True then map2 (\<lambda>a w. a * complex_of_real w) (dft [1])
                                (ifftshift (hann (length [1::complex]) False))
                  else dft [1])"
    by (simp add: dft_1 hann_def ifftshift_def)
  have N: "(1::int) = min 2 (int (length [1::complex]))" by simp
  have z: "(0::int) \<le> 2" "[1::complex] \<noteq> []" by simp_all
  have g1: "py_getslice [1::complex] 0 (Some 1) = [1]" by (simp add: getslice_prefix)
  have s1: "py_setslice [0, 0] 0 (Some 1) [1::complex] = Inr [1, 0]"
    using setslice_prefix[of 1 "[0, 0]" "[1::complex]"] by simp
  have s2: "py_setslice [1, 0] 0 None [1::complex] = Inr [1, 1]"
    by (simp add: setslice_all numeral_2_eq_2)
  have i: "ifft [1, 1] = Inr [1, 0]" by (simp add: ifft_def idft_11)
  have r: "replicate (nat 2) (0::complex) = [0, 0]" by (simp add: numeral_2_eq_2)
  show ?thesis
    unfolding resample_steps[OF z(2,1) X N] r
    by (simp add: g1 s1 getslice_all s2 i bindr_def)
qed

lemma equalizer_taps_one_bin: "equalizer_taps [1] 2 = Inr [1, 1]"
  by (simp add: equalizer_taps_def resample_one_bin bindr_def ifft_def idft_20)

text \<open>
  Claim C4, as the program has it. For every tap count \<open>ntaps \<ge> 2\<close> (or any positive
  tap count when the spectrum has a single bin) and every non-empty spectrum, the
  finalizer returns exactly \<open>ntaps\<close> samples. Their maximum absolute value is one when
  the signal handed to the normalizer has a non-zero sample; when that signal is all
  zeros every returned sample is NaN.
\<close>

theorem finalizer_taps:
  assumes "1 \<le> ntaps" "equalizer \<noteq> []" "2 \<le> ntaps \<or> length equalizer = 1"
  shows "\<exists>t y. equalizer_taps equalizer ntaps = Inr t \<and> finalizer equalizer ntaps = Inr y \<and>
           length y = nat ntaps \<and>
           ((\<exists>v\<in>set t. v \<noteq> 0) \<longrightarrow> amax (map fabs y) = Inr (Num 1)) \<and>
           ((\<forall>v\<in>set t. v = 0) \<longrightarrow> y = replicate (nat ntaps) NaN)"
proof -
  from resample_ok[OF assms(2,1,3)] obtain e where
    e: "resample equalizer ntaps True = Inr e" and le: "length e = nat ntaps" by blast
  have ene: "e \<noteq> []" using le assms(1) by auto
  then have i: "ifft e = Inr (idft e)" by (simp add: ifft_def)
  let ?t = "map Re (idft e)"
  have t: "equalizer_taps equalizer ntaps = Inr ?t"
    by (simp add: equalizer_taps_def e i bindr_def)
  have lt: "length ?t = nat ntaps" using le by simp
  have tne: "?t \<noteq> []" using lt assms(1) by (metis ene le length_0_conv)
  have f: "finalizer equalizer ntaps = norm_sig (map Num ?t)"
    by (simp add: finalizer_def t bindr_def)
  show ?thesis
  proof (cases "\<forall>v\<in>set ?t. v = 0")
    case True
    have "norm_sig (map Num ?t) = Inr (replicate (length ?t) NaN)"
      by (rule norm_sig_zero[OF tne True])
    then have "finalizer equalizer ntaps = Inr (replicate (nat ntaps) NaN)"
      unfolding f lt .
    then show ?thesis
      using t True by (intro exI[of _ ?t] exI[of _ "replicate (nat ntaps) NaN"]) auto
  next
    case False
    then have nz: "\<exists>v\<in>set ?t. v \<noteq> 0" by blast
    from norm_sig_peak[OF nz] obtain y where
      y: "norm_sig (map Num ?t) = Inr y" "amax (map fabs y) = Inr (Num 1)"
      by blast
    have "length y = nat ntaps" using norm_sig_length[OF y(1)] lt by simp
    then show ?thesis
      using t f y False by (intro exI[of _ ?t] exI[of _ y]) auto
  qed
qed

theorem finalizer_taps_witness:
  "(\<exists>y. finalizer [1] 2 = Inr y \<and> length y = 2 \<and> amax (map fabs y) = Inr (Num 1)) \<and>
   finalizer [0, 0, 0, 0] 4 = Inr (replicate 4 NaN)"
proof -
  have h1: "(1::int) \<le> 2" "[1::complex] \<noteq> []" "(2::int) \<le> 2 \<or> length [1::complex] = 1"
    by simp_all
  from finalizer_taps[OF h1] obtain t y where
    a: "equalizer_taps [1] 2 = Inr t" "finalizer [1] 2 = Inr y" "length y = nat 2"
       "(\<exists>v\<in>set t. v \<noteq> 0) \<longrightarrow> amax (map fabs y) = Inr (Num 1)"
    by blast
  from a(1) have "t = [1, 1]" by (simp add: equalizer_taps_one_bin)
  with a(4) have "amax (map fabs y) = Inr (Num 1)" by simp
  with a(2,3) have 1: "\<exists>y. finalizer [1] 2 = Inr y \<and> length y = 2 \<and> amax (map fabs y) = Inr (Num 1)"
    by simp
  have h2: "(1::int) \<le> 4" "[0, 0, 0, 0::complex] \<noteq> []"
    "(2::int) \<le> 4 \<or> length [0, 0, 0, 0::complex] = 1"
    by simp_all
  from finalizer_taps[OF h2] obtain t' y' where
    b: "equalizer_taps [0, 0, 0, 0] 4 = Inr t'" "finalizer [0, 0, 0, 0] 4 = Inr y'"
       "(\<forall>v\<in>set t'. v = 0) \<longrightarrow> y' = replicate (nat 4) NaN"
    by blast
  from b(1) have "t' = [0, 0, 0, 0]" by (simp add: equalizer_taps_zero4)
  with b(3) have "y' = replicate (nat 4) NaN" by simp
  with b(2) have 2: "finalizer [0, 0, 0, 0] 4 = Inr (replicate 4 NaN)" by simp
  from 1 2 show ?thesis by blast
qed

text \<open>
  The claim as the specification words it fails on a spectrum of four zero bins: the
  four samples returned are NaN, so their peak is not one.
\<close>

theorem finalizer_zero_spectrum_counterexample:
  "finalizer [0, 0, 0, 0] 4 = Inr [NaN, NaN, NaN, NaN]"
  by (simp add: finalizer_def equalizer_taps_zero4 bindr_def norm_sig_def)

text \<open>With one tap and a spectrum of two bins the resampler raises.\<close>

lemma finalizer_one_tap: "finalizer [1, 1] 1 = Inl ValueError"
  by (simp add: finalizer_def equalizer_taps_def resample_one_tap bindr_def)

text \<open>An empty spectrum has no transform.\<close>

lemma finalizer_empty: "finalizer [] ntaps = Inl ValueError"
  by (simp add: finalizer_def equalizer_taps_def resample_def fft_def bindr_def)

end
